theory Spec2Isabelle
  imports Main "HOL-Library.AList"
begin

section \<open>Values, value identity and structured cloning\<close>

text \<open>
  The store keeps JavaScript values. The model covers the structured-cloneable ones that
  the slice definitions of the repository use: primitives and plain objects. An object
  carries the address it was allocated at, so two objects with equal fields are still
  different objects, as in the source. Numbers are integers here (no \<open>NaN\<close>, no signed
  zero); functions and other values that \<open>structuredClone\<close> refuses are outside the
  model, so cloning is total.
\<close>

datatype val =
    VUndef
  | VNull
  | VBool bool
  | VNum int
  | VStr string
  | VObj nat "(string \<times> val) list"

text \<open>A plain object's own enumerable properties, in insertion order.\<close>

type_synonym fields = "(string \<times> val) list"

text \<open>\<open>Object.is\<close>: primitives by value, objects by reference.\<close>

definition object_is :: "val \<Rightarrow> val \<Rightarrow> bool" where
  "object_is x y =
     (case x of
        VObj a _ \<Rightarrow> (case y of VObj b _ \<Rightarrow> a = b | _ \<Rightarrow> False)
      | _ \<Rightarrow> (case y of VObj _ _ \<Rightarrow> False | _ \<Rightarrow> x = y))"

text \<open>
  \<open>structuredClone\<close>: every object of the copy is allocated afresh. The first argument is
  the next free address; the result carries the next free address after the copy.
\<close>

fun structuredClone :: "nat \<Rightarrow> val \<Rightarrow> val \<times> nat"
  and clone_fields :: "nat \<Rightarrow> fields \<Rightarrow> fields \<times> nat" where
  "structuredClone a (VObj _ fs) =
     (case clone_fields (Suc a) fs of (fs', a') \<Rightarrow> (VObj a fs', a'))"
| "structuredClone a VUndef = (VUndef, a)"
| "structuredClone a VNull = (VNull, a)"
| "structuredClone a (VBool b) = (VBool b, a)"
| "structuredClone a (VNum i) = (VNum i, a)"
| "structuredClone a (VStr s) = (VStr s, a)"
| "clone_fields a [] = ([], a)"
| "clone_fields a ((k, v) # fs) =
     (case structuredClone a v of (v', a1) \<Rightarrow>
        (case clone_fields a1 fs of (fs', a2) \<Rightarrow> ((k, v') # fs', a2)))"

text \<open>
  A slice state is the field list of its state object. \<open>cloneState\<close> is
  \<open>structuredClone\<close> of that object: the copy's own object takes the address \<open>a\<close>.
\<close>

definition cloneState :: "nat \<Rightarrow> fields \<Rightarrow> fields \<times> nat" where
  "cloneState a fs = clone_fields (Suc a) fs"

text \<open>The shape of a value: the value with every address forgotten (deep equality).\<close>

fun shape :: "val \<Rightarrow> val"
  and shape_fields :: "fields \<Rightarrow> fields" where
  "shape (VObj _ fs) = VObj 0 (shape_fields fs)"
| "shape VUndef = VUndef"
| "shape VNull = VNull"
| "shape (VBool b) = VBool b"
| "shape (VNum i) = VNum i"
| "shape (VStr s) = VStr s"
| "shape_fields [] = []"
| "shape_fields ((k, v) # fs) = (k, shape v) # shape_fields fs"

text \<open>The addresses of the objects a value is made of.\<close>

fun addrs :: "val \<Rightarrow> nat set"
  and addrs_fields :: "fields \<Rightarrow> nat set" where
  "addrs (VObj a fs) = insert a (addrs_fields fs)"
| "addrs VUndef = {}"
| "addrs VNull = {}"
| "addrs (VBool b) = {}"
| "addrs (VNum i) = {}"
| "addrs (VStr s) = {}"
| "addrs_fields [] = {}"
| "addrs_fields ((k, v) # fs) = addrs v \<union> addrs_fields fs"

text \<open>
  An assignment \<open>obj.k = v\<close> made by outside code through a reference to the object at
  address \<open>a\<close>: every occurrence of that object sees it.
\<close>

fun assign :: "nat \<Rightarrow> string \<Rightarrow> val \<Rightarrow> val \<Rightarrow> val"
  and assign_fields :: "nat \<Rightarrow> string \<Rightarrow> val \<Rightarrow> fields \<Rightarrow> fields" where
  "assign a k v (VObj b fs) =
     (if a = b then VObj b (AList.update k v (assign_fields a k v fs))
      else VObj b (assign_fields a k v fs))"
| "assign a k v VUndef = VUndef"
| "assign a k v VNull = VNull"
| "assign a k v (VBool b) = VBool b"
| "assign a k v (VNum i) = VNum i"
| "assign a k v (VStr s) = VStr s"
| "assign_fields a k v [] = []"
| "assign_fields a k v ((k', w) # fs) = (k', assign a k v w) # assign_fields a k v fs"

text \<open>Reading a property: a missing property reads as \<open>undefined\<close>.\<close>

definition field :: "fields \<Rightarrow> string \<Rightarrow> val" where
  "field fs k = (case map_of fs k of None \<Rightarrow> VUndef | Some v \<Rightarrow> v)"

text \<open>Object spread \<open>{...a, ...b}\<close>.\<close>

definition spread :: "fields \<Rightarrow> fields \<Rightarrow> fields" where
  "spread a b = foldl (\<lambda>acc (k, v). AList.update k v acc) a b"

text \<open>\<open>Set.prototype.add\<close> on an insertion-ordered set.\<close>

definition set_add :: "'a \<Rightarrow> 'a list \<Rightarrow> 'a list" where
  "set_add x xs = (if x \<in> set xs then xs else xs @ [x])"

text \<open>\<open>new Set([...Object.keys(a), ...Object.keys(b)])\<close>, in iteration order.\<close>

definition allKeys :: "fields \<Rightarrow> fields \<Rightarrow> string list" where
  "allKeys a b = foldl (\<lambda>acc k. set_add k acc) [] (map fst a @ map fst b)"

section \<open>Errors, middleware, listeners and the notification trace\<close>

datatype error =
    JsError string
  | NotRegistered string
  | MiddlewareFailed string nat error

datatype 'a outcome = Return 'a | Raise error

text \<open>
  A middleware is a pure function of the current state and the incoming partial: it
  returns a transformed partial, \<open>null\<close> (\<open>None\<close>) to reject, or raises.
\<close>

type_synonym middleware = "fields \<Rightarrow> fields \<Rightarrow> error + fields option"

datatype payload =
    FieldChange val val
  | SliceState fields
  | StoreState "(string \<times> fields) list"

datatype emitter = FieldEmitter string string | SliceEmitter string | StoreEmitter

text \<open>
  The trace records what an observer of the store sees: \<open>Fire\<close> when the store starts to
  notify the listeners of an emitter, \<open>Invoke\<close> for each call of a listener. A listener
  of the store model returns normally or raises; it does not call back into the store.
\<close>

datatype event = Fire emitter payload | Invoke nat payload

record listener =
  lid :: nat
  run :: "payload \<Rightarrow> error option"

section \<open>The emitter (\<open>Signal\<close> of \<open>src/lib/signal.ts\<close>)\<close>

text \<open>
  A \<open>BindingEntry\<close> is an object of its own: \<open>eid\<close> is its identity, given in allocation
  order. \<open>entry_fn\<close> names the listener function. The \<open>thisArg\<close> is not modelled.
\<close>

record entry =
  eid :: nat
  entry_fn :: nat
  entry_once :: bool

text \<open>
  One invocation of a listener, as an observer records it: the entry, the function, the
  value passed, and whether the entry was still in \<open>bindings\<close> at the moment of the call.
\<close>

datatype call = Call nat nat val bool


text \<open>
  \<open>Signal\<close>: the insertion-ordered set \<open>bindings\<close>. \<open>next_eid\<close> is the identity the next
  entry object gets, \<open>calls\<close> is the observer's record.
\<close>

record signal =
  bindings :: "entry list"
  next_eid :: nat
  calls :: "call list"

text \<open>
  What a listener does when it is called: a sequence of steps on the signal it is
  registered on, each of which can be a call of the signal's own interface (re-entrancy),
  and \<open>Throw\<close> to raise. An error of a re-entrant \<open>emit\<close> is not caught by the listener.
  A program gives every listener function its steps for a value.
\<close>

datatype action =
    Add nat
  | AddOnce nat
  | Remove nat
  | Detach nat
  | Clear
  | Emit val
  | Throw error

type_synonym program = "nat \<Rightarrow> val \<Rightarrow> action list"

definition signal_add :: "nat \<Rightarrow> signal \<Rightarrow> signal" where
  "signal_add f s =
     s\<lparr>bindings := bindings s @ [\<lparr>eid = next_eid s, entry_fn = f, entry_once = False\<rparr>],
       next_eid := Suc (next_eid s)\<rparr>"

definition signal_once :: "nat \<Rightarrow> signal \<Rightarrow> signal" where
  "signal_once f s =
     s\<lparr>bindings := bindings s @ [\<lparr>eid = next_eid s, entry_fn = f, entry_once = True\<rparr>],
       next_eid := Suc (next_eid s)\<rparr>"

text \<open>\<open>remove(listener)\<close>: the first entry of that function is deleted.\<close>

fun remove_first :: "nat \<Rightarrow> entry list \<Rightarrow> entry list" where
  "remove_first f [] = []"
| "remove_first f (e # es) = (if entry_fn e = f then es else e # remove_first f es)"

definition signal_remove :: "nat \<Rightarrow> signal \<Rightarrow> signal" where
  "signal_remove f s = s\<lparr>bindings := remove_first f (bindings s)\<rparr>"

text \<open>\<open>this.bindings.delete(entry)\<close>, used by \<open>emit\<close> and by a binding's \<open>detach\<close>.\<close>

definition delete_entry :: "nat \<Rightarrow> signal \<Rightarrow> signal" where
  "delete_entry i s = s\<lparr>bindings := filter (\<lambda>e. eid e \<noteq> i) (bindings s)\<rparr>"

definition signal_clear :: "signal \<Rightarrow> signal" where
  "signal_clear s = s\<lparr>bindings := []\<rparr>"

definition hasListeners :: "signal \<Rightarrow> bool" where
  "hasListeners s = (bindings s \<noteq> [])"

text \<open>
  \<open>emit\<close> iterates over the live set: an entry deleted before the iteration reaches it is
  skipped, an entry added during the iteration is visited. Entries are appended with
  increasing identities and never re-inserted, so the entry the iterator yields next is
  the first one whose identity is at or after the cursor. The loop need not end (a
  listener can add a listener on every call, or emit without end), so it runs on fuel:
  \<open>None\<close> means the fuel ran out.

  \<open>emit_loop\<close> is the \<open>for\<close> loop of \<open>emit\<close> with its \<open>try\<close>/\<open>catch\<close>: \<open>firstError\<close> is the
  source's pair \<open>firstError\<close>/\<open>hasError\<close>. \<open>run_body\<close> runs the steps of one listener.
\<close>

fun emit_loop ::
    "nat \<Rightarrow> program \<Rightarrow> val \<Rightarrow> nat \<Rightarrow> error option \<Rightarrow> signal \<Rightarrow> (error option \<times> signal) option"
  and run_body ::
    "nat \<Rightarrow> program \<Rightarrow> action list \<Rightarrow> signal \<Rightarrow> (error option \<times> signal) option" where
  "emit_loop 0 P v cursor firstError s = None"
| "emit_loop (Suc n) P v cursor firstError s =
     (case List.find (\<lambda>e. cursor \<le> eid e) (bindings s) of
        None \<Rightarrow> Some (firstError, s)
      | Some e \<Rightarrow>
          let s1 = (if entry_once e then delete_entry (eid e) s else s);
              s2 = s1\<lparr>calls := calls s1 @
                     [Call (eid e) (entry_fn e) v (eid e \<in> set (map eid (bindings s1)))]\<rparr>
          in
          (case run_body n P (P (entry_fn e) v) s2 of
             None \<Rightarrow> None
           | Some (err, s3) \<Rightarrow>
               emit_loop n P v (Suc (eid e))
                 (case firstError of None \<Rightarrow> err | Some x \<Rightarrow> Some x) s3))"
| "run_body 0 P acts s = None"
| "run_body (Suc n) P [] s = Some (None, s)"
| "run_body (Suc n) P (Add f # acts) s = run_body n P acts (signal_add f s)"
| "run_body (Suc n) P (AddOnce f # acts) s = run_body n P acts (signal_once f s)"
| "run_body (Suc n) P (Remove f # acts) s = run_body n P acts (signal_remove f s)"
| "run_body (Suc n) P (Detach i # acts) s = run_body n P acts (delete_entry i s)"
| "run_body (Suc n) P (Clear # acts) s = run_body n P acts (signal_clear s)"
| "run_body (Suc n) P (Emit w # acts) s =
     (case emit_loop n P w 0 None s of
        None \<Rightarrow> None
      | Some (Some x, s') \<Rightarrow> Some (Some x, s')
      | Some (None, s') \<Rightarrow> run_body n P acts s')"
| "run_body (Suc n) P (Throw x # acts) s = Some (Some x, s)"

text \<open>\<open>Signal.emit(value)\<close>: the loop from the start of the set; the error is re-raised.\<close>

definition emit :: "nat \<Rightarrow> program \<Rightarrow> val \<Rightarrow> signal \<Rightarrow> (error option \<times> signal) option" where
  "emit fuel P v s = emit_loop fuel P v 0 None s"

text \<open>
  The earlier \<open>Signal.emit\<close> of \<open>src/unnamed/part_000\<close> has no \<open>try\<close>/\<open>catch\<close>: the error of
  a listener leaves the loop at once.
\<close>

fun emit_loop_legacy ::
    "nat \<Rightarrow> program \<Rightarrow> val \<Rightarrow> nat \<Rightarrow> signal \<Rightarrow> (error option \<times> signal) option"
  and run_body_legacy ::
    "nat \<Rightarrow> program \<Rightarrow> action list \<Rightarrow> signal \<Rightarrow> (error option \<times> signal) option" where
  "emit_loop_legacy 0 P v cursor s = None"
| "emit_loop_legacy (Suc n) P v cursor s =
     (case List.find (\<lambda>e. cursor \<le> eid e) (bindings s) of
        None \<Rightarrow> Some (None, s)
      | Some e \<Rightarrow>
          let s1 = (if entry_once e then delete_entry (eid e) s else s);
              s2 = s1\<lparr>calls := calls s1 @
                     [Call (eid e) (entry_fn e) v (eid e \<in> set (map eid (bindings s1)))]\<rparr>
          in
          (case run_body_legacy n P (P (entry_fn e) v) s2 of
             None \<Rightarrow> None
           | Some (Some x, s3) \<Rightarrow> Some (Some x, s3)
           | Some (None, s3) \<Rightarrow> emit_loop_legacy n P v (Suc (eid e)) s3))"
| "run_body_legacy 0 P acts s = None"
| "run_body_legacy (Suc n) P [] s = Some (None, s)"
| "run_body_legacy (Suc n) P (Add f # acts) s = run_body_legacy n P acts (signal_add f s)"
| "run_body_legacy (Suc n) P (AddOnce f # acts) s = run_body_legacy n P acts (signal_once f s)"
| "run_body_legacy (Suc n) P (Remove f # acts) s = run_body_legacy n P acts (signal_remove f s)"
| "run_body_legacy (Suc n) P (Detach i # acts) s = run_body_legacy n P acts (delete_entry i s)"
| "run_body_legacy (Suc n) P (Clear # acts) s = run_body_legacy n P acts (signal_clear s)"
| "run_body_legacy (Suc n) P (Emit w # acts) s =
     (case emit_loop_legacy n P w 0 s of
        None \<Rightarrow> None
      | Some (Some x, s') \<Rightarrow> Some (Some x, s')
      | Some (None, s') \<Rightarrow> run_body_legacy n P acts s')"
| "run_body_legacy (Suc n) P (Throw x # acts) s = Some (Some x, s)"

definition emit_legacy :: "nat \<Rightarrow> program \<Rightarrow> val \<Rightarrow> signal \<Rightarrow> (error option \<times> signal) option" where
  "emit_legacy fuel P v s = emit_loop_legacy fuel P v 0 s"

text \<open>
  The set as the code builds it: identities increase along \<open>bindings\<close> and are below
  \<open>next_eid\<close>.
\<close>

definition wf_signal :: "signal \<Rightarrow> bool" where
  "wf_signal s =
     (sorted_wrt (<) (map eid (bindings s)) \<and> (\<forall>e \<in> set (bindings s). eid e < next_eid s))"


text \<open>A listener that only returns or raises: it does not touch the signal.\<close>

definition passive_listeners :: "program \<Rightarrow> bool" where
  "passive_listeners P = (\<forall>f v. P f v = [] \<or> (\<exists>x. P f v = [Throw x]))"

text \<open>What a passive listener raises.\<close>

definition raised :: "program \<Rightarrow> val \<Rightarrow> entry \<Rightarrow> error option" where
  "raised P v e = (case P (entry_fn e) v of Throw x # _ \<Rightarrow> Some x | _ \<Rightarrow> None)"

text \<open>The first error of a list of results.\<close>

fun first_error :: "error option list \<Rightarrow> error option" where
  "first_error [] = None"
| "first_error (None # rs) = first_error rs"
| "first_error (Some x # rs) = Some x"

text \<open>No listener removes the entry \<open>i\<close> of function \<open>f\<close> from the set.\<close>

definition keeps :: "nat \<Rightarrow> nat \<Rightarrow> program \<Rightarrow> bool" where
  "keeps i f P = (\<forall>g v. \<forall>a \<in> set (P g v). a \<noteq> Clear \<and> a \<noteq> Detach i \<and> a \<noteq> Remove f)"

text \<open>No listener emits.\<close>

definition no_reentry :: "program \<Rightarrow> bool" where
  "no_reentry P = (\<forall>g v w. Emit w \<notin> set (P g v))"








section \<open>The class-based store (\<open>src/index.ts\<close>)\<close>

text \<open>
  \<open>SliceHandle\<close>: the state, the frozen defaults, the middleware pipeline and the listener
  sets of one slice. A handle is stored under its \<open>_name\<close> in \<open>SlicedStore._slices\<close>, and
  the operations below address it by that name. Computed handles are not modelled.
\<close>

record slice_handle =
  state :: fields
  defaults :: fields
  middleware :: "middleware list"
  fieldListeners :: "(string \<times> listener list) list"
  sliceListeners :: "listener list"

text \<open>
  \<open>BatchContext\<close>. \<open>snapshots\<close> is the source's \<open>slices\<close> map (pre-batch copies); a
  pending field holds \<open>(prev, value)\<close>.
\<close>

record batch_context =
  active :: bool
  snapshots :: "(string \<times> fields) list"
  dirtySlices :: "string list"
  pendingFields :: "(string \<times> (string \<times> val \<times> val) list) list"

text \<open>
  \<open>SlicedStore\<close>, with the allocator of the JavaScript heap (\<open>heap\<close>, the next free
  address) and the notification trace (\<open>events\<close>) made explicit.
\<close>

record store =
  slices :: "(string \<times> slice_handle) list"
  storeListeners :: "listener list"
  batch_ctx :: batch_context
  heap :: nat
  events :: "event list"

definition emptyBatch :: batch_context where
  "emptyBatch = \<lparr>active = False, snapshots = [], dirtySlices = [], pendingFields = []\<rparr>"

text \<open>\<open>for (const fn of listeners) fn(payload)\<close>: the first listener that raises ends the loop.\<close>

fun callListeners :: "listener list \<Rightarrow> payload \<Rightarrow> event list \<Rightarrow> error option \<times> event list" where
  "callListeners [] p ev = (None, ev)"
| "callListeners (l # ls) p ev =
     (case run l p of
        Some e \<Rightarrow> (Some e, ev @ [Invoke (lid l) p])
      | None \<Rightarrow> callListeners ls p (ev @ [Invoke (lid l) p]))"

text \<open>\<open>SliceHandle.get\<close> returns the stored value itself.\<close>

definition get :: "slice_handle \<Rightarrow> string \<Rightarrow> val" where
  "get h key = field (state h) key"

text \<open>\<open>SliceHandle.getAll\<close> returns \<open>structuredClone(this._state)\<close>.\<close>

definition getAll :: "slice_handle \<Rightarrow> nat \<Rightarrow> val \<times> nat" where
  "getAll h a = (case cloneState a (state h) of (fs, a') \<Rightarrow> (VObj a fs, a'))"

text \<open>The middleware loop of \<open>SliceHandle.set\<close>: every middleware sees \<open>this._state\<close>.\<close>

fun runMiddleware :: "middleware list \<Rightarrow> fields \<Rightarrow> fields \<Rightarrow> error + fields option" where
  "runMiddleware [] st incoming = Inr (Some incoming)"
| "runMiddleware (mw # mws) st incoming =
     (case mw st incoming of
        Inl e \<Rightarrow> Inl e
      | Inr None \<Rightarrow> Inr None
      | Inr (Some result) \<Rightarrow> runMiddleware mws st result)"

text \<open>\<open>SliceHandle._flushField\<close>, \<open>SliceHandle._flushSlice\<close>.\<close>

definition flushField ::
  "string \<Rightarrow> slice_handle \<Rightarrow> string \<Rightarrow> val \<Rightarrow> val \<Rightarrow> event list \<Rightarrow> error option \<times> event list" where
  "flushField n h key v prev ev =
     (let ev1 = ev @ [Fire (FieldEmitter n key) (FieldChange v prev)] in
      case map_of (fieldListeners h) key of
        None \<Rightarrow> (None, ev1)
      | Some subs \<Rightarrow> callListeners subs (FieldChange v prev) ev1)"

definition flushSlice :: "string \<Rightarrow> slice_handle \<Rightarrow> event list \<Rightarrow> error option \<times> event list" where
  "flushSlice n h ev =
     callListeners (sliceListeners h) (SliceState (state h))
       (ev @ [Fire (SliceEmitter n) (SliceState (state h))])"

text \<open>\<open>SlicedStore.getState\<close>: a deep clone of every slice, by name.\<close>

fun cloneSlices :: "nat \<Rightarrow> (string \<times> slice_handle) list \<Rightarrow> (string \<times> fields) list \<times> nat" where
  "cloneSlices a [] = ([], a)"
| "cloneSlices a ((n, h) # rest) =
     (case cloneState a (state h) of (st, a1) \<Rightarrow>
        (case cloneSlices a1 rest of (r, a2) \<Rightarrow> ((n, st) # r, a2)))"

definition getState :: "store \<Rightarrow> (string \<times> fields) list \<times> store" where
  "getState s = (case cloneSlices (heap s) (slices s) of (st, a) \<Rightarrow> (st, s\<lparr>heap := a\<rparr>))"

text \<open>\<open>SlicedStore._notifyStoreListeners\<close>.\<close>

definition notifyStoreListeners :: "store \<Rightarrow> error option \<times> store" where
  "notifyStoreListeners s =
     (case getState s of (snapshot, s1) \<Rightarrow>
        (case callListeners (storeListeners s1) (StoreState snapshot)
                (events s1 @ [Fire StoreEmitter (StoreState snapshot)]) of
           (r, ev) \<Rightarrow> (r, s1\<lparr>events := ev\<rparr>)))"

text \<open>
  The merge of one field diff into the pending map of a slice: an existing entry keeps its
  \<open>prev\<close> and takes the new value.
\<close>

definition mergePending :: "string \<Rightarrow> val \<Rightarrow> val \<Rightarrow> (string \<times> val \<times> val) list \<Rightarrow> (string \<times> val \<times> val) list" where
  "mergePending key prev v flds =
     (case map_of flds key of
        Some (prev0, _) \<Rightarrow> AList.update key (prev0, v) flds
      | None \<Rightarrow> AList.update key (prev, v) flds)"

text \<open>The pending map of a slice, created empty when absent.\<close>

definition pendingOf :: "string \<Rightarrow> batch_context \<Rightarrow> (string \<times> val \<times> val) list" where
  "pendingOf n b = (case map_of (pendingFields b) n of None \<Rightarrow> [] | Some flds \<Rightarrow> flds)"

text \<open>
  \<open>if (this._batch.active && !this._batch.slices.has(name)) this._batch.slices.set(name,
  structuredClone(state))\<close>: the snapshot before the first mutation of a slice in a batch.
\<close>

definition takeSnapshot :: "string \<Rightarrow> fields \<Rightarrow> store \<Rightarrow> store" where
  "takeSnapshot n st s =
     (if active (batch_ctx s) \<and> map_of (snapshots (batch_ctx s)) n = None then
        (case cloneState (heap s) st of (copy, a) \<Rightarrow>
           s\<lparr>heap := a,
             batch_ctx := (batch_ctx s)\<lparr>snapshots := AList.update n copy (snapshots (batch_ctx s))\<rparr>\<rparr>)
      else s)"

definition setState :: "string \<Rightarrow> fields \<Rightarrow> store \<Rightarrow> store" where
  "setState n st s =
     (case map_of (slices s) n of
        None \<Rightarrow> s
      | Some h \<Rightarrow> s\<lparr>slices := AList.update n (h\<lparr>state := st\<rparr>) (slices s)\<rparr>)"

text \<open>
  \<open>SliceHandle.set\<close>, for the handle that \<open>_slices\<close> holds under the name \<open>n\<close>. The model
  addresses a handle by that name, so it covers the calls made through the handles of
  registered slices. \<open>SliceHandle.set\<close> itself never consults \<open>_slices\<close>: a handle kept
  after \<open>unregister\<close> still writes its own state. Such a handle has no counterpart in the
  model; the \<open>NotRegistered\<close> branch only marks a name without a handle, and every property
  below that speaks of \<open>set\<close> assumes the name registered.
\<close>

definition set_field :: "string \<Rightarrow> string \<Rightarrow> val \<Rightarrow> store \<Rightarrow> bool outcome \<times> store" where
  "set_field n key v s =
     (case map_of (slices s) n of
        None \<Rightarrow> (Raise (NotRegistered n), s)
      | Some h \<Rightarrow>
          let prev = field (state h) key in
          if object_is prev v then (Return True, s)
          else
            (case runMiddleware (middleware h) (state h) [(key, v)] of
               Inl e \<Rightarrow> (Raise e, s)
             | Inr None \<Rightarrow> (Return False, s)
             | Inr (Some incoming) \<Rightarrow>
                 let finalValue = field incoming key in
                 if object_is prev finalValue then (Return True, s)
                 else
                   let s1 = takeSnapshot n (state h) s;
                       h' = h\<lparr>state := AList.update key finalValue (state h)\<rparr>;
                       s2 = s1\<lparr>slices := AList.update n h' (slices s1)\<rparr>
                   in
                   if active (batch_ctx s2) then
                     (Return True,
                      s2\<lparr>batch_ctx := (batch_ctx s2)
                          \<lparr>dirtySlices := set_add n (dirtySlices (batch_ctx s2)),
                           pendingFields :=
                             AList.update n
                               (mergePending key prev finalValue (pendingOf n (batch_ctx s2)))
                               (pendingFields (batch_ctx s2))\<rparr>\<rparr>)
                   else
                     (case flushField n h' key finalValue prev (events s2) of
                        (Some e, ev) \<Rightarrow> (Raise e, s2\<lparr>events := ev\<rparr>)
                      | (None, ev) \<Rightarrow>
                          (case flushSlice n h' ev of
                             (Some e, ev') \<Rightarrow> (Raise e, s2\<lparr>events := ev'\<rparr>)
                           | (None, ev') \<Rightarrow>
                               (case notifyStoreListeners (s2\<lparr>events := ev'\<rparr>) of
                                  (Some e, s3) \<Rightarrow> (Raise e, s3)
                                | (None, s3) \<Rightarrow> (Return True, s3))))))"

text \<open>
  \<open>SliceHandle.batch(updates)\<close>: one \<open>set\<close> per entry; the keys whose \<open>set\<close> returned
  \<open>false\<close> are collected.
\<close>

fun handle_batch_loop ::
  "string \<Rightarrow> fields \<Rightarrow> string list \<Rightarrow> store \<Rightarrow> string list outcome \<times> store" where
  "handle_batch_loop n [] rejected s = (Return rejected, s)"
| "handle_batch_loop n ((key, v) # rest) rejected s =
     (case set_field n key v s of
        (Raise e, s') \<Rightarrow> (Raise e, s')
      | (Return ok, s') \<Rightarrow>
          handle_batch_loop n rest (if ok then rejected else rejected @ [key]) s')"

definition handle_batch :: "string \<Rightarrow> fields \<Rightarrow> store \<Rightarrow> string list outcome \<times> store" where
  "handle_batch n updates s = handle_batch_loop n updates [] s"

text \<open>\<open>SliceHandle.reset\<close>: \<open>set(key, defaults[key])\<close> for every key of the defaults.\<close>

fun handle_reset_loop :: "string \<Rightarrow> fields \<Rightarrow> store \<Rightarrow> unit outcome \<times> store" where
  "handle_reset_loop n [] s = (Return (), s)"
| "handle_reset_loop n ((key, v) # rest) s =
     (case set_field n key v s of
        (Raise e, s') \<Rightarrow> (Raise e, s')
      | (Return _, s') \<Rightarrow> handle_reset_loop n rest s')"

definition handle_reset :: "string \<Rightarrow> store \<Rightarrow> unit outcome \<times> store" where
  "handle_reset n s =
     (case map_of (slices s) n of
        None \<Rightarrow> (Raise (NotRegistered n), s)
      | Some h \<Rightarrow> handle_reset_loop n (defaults h) s)"

text \<open>
  \<open>SlicedStore._notifySliceChanges(name, handle, oldState)\<close>: the two loops over
  \<open>allKeys\<close>, then the function itself.
\<close>

fun mergeChanged ::
  "string list \<Rightarrow> fields \<Rightarrow> fields \<Rightarrow> (string \<times> val \<times> val) list \<Rightarrow> (string \<times> val \<times> val) list" where
  "mergeChanged [] old new flds = flds"
| "mergeChanged (key # keys) old new flds =
     mergeChanged keys old new
       (if \<not> object_is (field old key) (field new key)
        then mergePending key (field old key) (field new key) flds
        else flds)"

fun flushChanged ::
  "string \<Rightarrow> slice_handle \<Rightarrow> string list \<Rightarrow> fields \<Rightarrow> fields \<Rightarrow> event list
     \<Rightarrow> error option \<times> event list" where
  "flushChanged n h [] old new ev = (None, ev)"
| "flushChanged n h (key # keys) old new ev =
     (if \<not> object_is (field old key) (field new key) then
        (case flushField n h key (field new key) (field old key) ev of
           (Some e, ev') \<Rightarrow> (Some e, ev')
         | (None, ev') \<Rightarrow> flushChanged n h keys old new ev')
      else flushChanged n h keys old new ev)"

definition notifySliceChanges ::
  "string \<Rightarrow> slice_handle \<Rightarrow> fields \<Rightarrow> store \<Rightarrow> error option \<times> store" where
  "notifySliceChanges n h oldState s =
     (let newState = state h; keys = allKeys oldState newState in
      if active (batch_ctx s) then
        (None,
         s\<lparr>batch_ctx := (batch_ctx s)
             \<lparr>dirtySlices := set_add n (dirtySlices (batch_ctx s)),
              pendingFields :=
                AList.update n (mergeChanged keys oldState newState (pendingOf n (batch_ctx s)))
                  (pendingFields (batch_ctx s))\<rparr>\<rparr>)
      else
        (case flushChanged n h keys oldState newState (events s) of
           (Some e, ev) \<Rightarrow> (Some e, s\<lparr>events := ev\<rparr>)
         | (None, ev) \<Rightarrow>
             (case flushSlice n h ev of (r, ev') \<Rightarrow> (r, s\<lparr>events := ev'\<rparr>))))"

text \<open>
  \<open>SlicedStore.restore(data)\<close>. \<open>data\<close> is \<open>Object.entries(data)\<close>; the flag is
  \<open>anyRestored\<close>.
\<close>

fun restore_loop :: "(string \<times> val) list \<Rightarrow> bool \<Rightarrow> store \<Rightarrow> error option \<times> bool \<times> store" where
  "restore_loop [] anyRestored s = (None, anyRestored, s)"
| "restore_loop ((n, sliceData) # rest) anyRestored s =
     (case map_of (slices s) n of
        None \<Rightarrow> restore_loop rest anyRestored s
      | Some h \<Rightarrow>
          (case sliceData of
             VObj _ dataFields \<Rightarrow>
               let oldState = state h;
                   s1 = takeSnapshot n oldState s
               in
               (case cloneState (heap s1) dataFields of (clonedData, a1) \<Rightarrow>
                  (case cloneState a1 (defaults h) of (clonedDefaults, a2) \<Rightarrow>
                     let h' = h\<lparr>state := spread clonedDefaults clonedData\<rparr>;
                         s2 = s1\<lparr>heap := a2, slices := AList.update n h' (slices s1)\<rparr>
                     in
                     (case notifySliceChanges n h' oldState s2 of
                        (Some e, s3) \<Rightarrow> (Some e, anyRestored, s3)
                      | (None, s3) \<Rightarrow> restore_loop rest True s3)))
           | _ \<Rightarrow> restore_loop rest anyRestored s))"

definition restore :: "(string \<times> val) list \<Rightarrow> store \<Rightarrow> unit outcome \<times> store" where
  "restore data s =
     (case restore_loop data False s of
        (Some e, _, s1) \<Rightarrow> (Raise e, s1)
      | (None, anyRestored, s1) \<Rightarrow>
          if \<not> active (batch_ctx s1) \<and> anyRestored then
            (case notifyStoreListeners s1 of
               (Some e, s2) \<Rightarrow> (Raise e, s2)
             | (None, s2) \<Rightarrow> (Return (), s2))
          else (Return (), s1))"

text \<open>\<open>SlicedStore.resetState\<close>, over the names of \<open>_slices\<close> in registration order.\<close>

fun resetState_loop :: "string list \<Rightarrow> bool \<Rightarrow> store \<Rightarrow> error option \<times> bool \<times> store" where
  "resetState_loop [] anyReset s = (None, anyReset, s)"
| "resetState_loop (n # ns) anyReset s =
     (case map_of (slices s) n of
        None \<Rightarrow> resetState_loop ns anyReset s
      | Some h \<Rightarrow>
          let oldState = state h;
              s1 = takeSnapshot n oldState s
          in
          (case cloneState (heap s1) (defaults h) of (d, a) \<Rightarrow>
             let h' = h\<lparr>state := d\<rparr>;
                 s2 = s1\<lparr>heap := a, slices := AList.update n h' (slices s1)\<rparr>
             in
             (case notifySliceChanges n h' oldState s2 of
                (Some e, s3) \<Rightarrow> (Some e, anyReset, s3)
              | (None, s3) \<Rightarrow> resetState_loop ns True s3)))"

definition resetState :: "store \<Rightarrow> unit outcome \<times> store" where
  "resetState s =
     (case resetState_loop (map fst (slices s)) False s of
        (Some e, _, s1) \<Rightarrow> (Raise e, s1)
      | (None, anyReset, s1) \<Rightarrow>
          if \<not> active (batch_ctx s1) \<and> anyReset then
            (case notifyStoreListeners s1 of
               (Some e, s2) \<Rightarrow> (Raise e, s2)
             | (None, s2) \<Rightarrow> (Return (), s2))
          else (Return (), s1))"

text \<open>
  The hard \<open>SlicedStore.reset\<close>: every slice gets a clone of its defaults and loses its
  subscriptions, and the store listeners are cleared. It takes no snapshot and notifies
  nobody, whether a batch is active or not. The Signal-based store has the same code
  (\<open>record.state = structuredClone(defaults)\<close>, then the signals are cleared).
\<close>

fun reset_loop :: "(string \<times> slice_handle) list \<Rightarrow> nat \<Rightarrow> (string \<times> slice_handle) list \<times> nat" where
  "reset_loop [] a = ([], a)"
| "reset_loop ((n, h) # rest) a =
     (case cloneState a (defaults h) of (d, a1) \<Rightarrow>
        (case reset_loop rest a1 of (r, a2) \<Rightarrow>
           ((n, h\<lparr>state := d, fieldListeners := [], sliceListeners := []\<rparr>) # r, a2)))"

definition reset :: "store \<Rightarrow> store" where
  "reset s =
     (case reset_loop (slices s) (heap s) of
        (sl, a) \<Rightarrow> s\<lparr>slices := sl, storeListeners := [], heap := a\<rparr>)"

text \<open>
  The two exits of \<open>SlicedStore.batch\<close>. \<open>rollback\<close> is the \<open>catch\<close> block: every
  snapshotted slice gets its snapshot back and the context is cleared. \<open>commit\<close> is the
  code after the \<open>try\<close>: field notifications, slice notifications, the store
  notification when a slice is dirty, then the context is cleared.
\<close>

definition rollback :: "store \<Rightarrow> store" where
  "rollback s =
     (foldl (\<lambda>t (n, snapshot). setState n snapshot t) s (snapshots (batch_ctx s)))
       \<lparr>batch_ctx := emptyBatch\<rparr>"

fun flushFields ::
  "string \<Rightarrow> slice_handle \<Rightarrow> (string \<times> val \<times> val) list \<Rightarrow> event list \<Rightarrow> error option \<times> event list" where
  "flushFields n h [] ev = (None, ev)"
| "flushFields n h ((key, prev, v) # rest) ev =
     (case flushField n h key v prev ev of
        (Some e, ev') \<Rightarrow> (Some e, ev')
      | (None, ev') \<Rightarrow> flushFields n h rest ev')"

fun flushPending ::
  "(string \<times> (string \<times> val \<times> val) list) list \<Rightarrow> store \<Rightarrow> error option \<times> store" where
  "flushPending [] s = (None, s)"
| "flushPending ((n, flds) # rest) s =
     (case map_of (slices s) n of
        None \<Rightarrow> flushPending rest s
      | Some h \<Rightarrow>
          (case flushFields n h flds (events s) of
             (Some e, ev) \<Rightarrow> (Some e, s\<lparr>events := ev\<rparr>)
           | (None, ev) \<Rightarrow> flushPending rest (s\<lparr>events := ev\<rparr>)))"

fun flushDirty :: "string list \<Rightarrow> store \<Rightarrow> error option \<times> store" where
  "flushDirty [] s = (None, s)"
| "flushDirty (n # ns) s =
     (case map_of (slices s) n of
        None \<Rightarrow> flushDirty ns s
      | Some h \<Rightarrow>
          (case flushSlice n h (events s) of
             (Some e, ev) \<Rightarrow> (Some e, s\<lparr>events := ev\<rparr>)
           | (None, ev) \<Rightarrow> flushDirty ns (s\<lparr>events := ev\<rparr>)))"

definition commit :: "store \<Rightarrow> error option \<times> store" where
  "commit s =
     (let s1 = s\<lparr>batch_ctx := (batch_ctx s)\<lparr>active := False\<rparr>\<rparr> in
      case flushPending (pendingFields (batch_ctx s1)) s1 of
        (Some e, s2) \<Rightarrow> (Some e, s2)
      | (None, s2) \<Rightarrow>
          (case flushDirty (dirtySlices (batch_ctx s2)) s2 of
             (Some e, s3) \<Rightarrow> (Some e, s3)
           | (None, s3) \<Rightarrow>
               (case (if dirtySlices (batch_ctx s3) \<noteq> [] then notifyStoreListeners s3
                      else (None, s3)) of
                  (Some e, s4) \<Rightarrow> (Some e, s4)
                | (None, s4) \<Rightarrow> (None, s4\<lparr>batch_ctx := emptyBatch\<rparr>))))"

text \<open>
  The body \<open>fn\<close> of \<open>SlicedStore.batch(fn)\<close> is a sequence of calls of the store's write
  operations, possibly ending in a \<open>throw\<close>. A command names the slice whose registered
  handle it calls. Registration and \<open>unregister\<close>, which manage the life of slices, are not
  part of a body.
\<close>

datatype cmd =
    CSet string string val
  | CHandleBatch string fields
  | CHandleReset string
  | CRestore "(string \<times> val) list"
  | CResetState
  | CReset
  | CBatch "cmd list"
  | CThrow error

definition unit_result :: "'a outcome \<times> store \<Rightarrow> error option \<times> store" where
  "unit_result r = (case r of (Raise e, s) \<Rightarrow> (Some e, s) | (Return _, s) \<Rightarrow> (None, s))"

text \<open>\<open>SlicedStore.batch\<close>, with the interpreter of bodies.\<close>

fun batch :: "cmd list \<Rightarrow> store \<Rightarrow> error option \<times> store"
  and exec :: "cmd \<Rightarrow> store \<Rightarrow> error option \<times> store"
  and exec_all :: "cmd list \<Rightarrow> store \<Rightarrow> error option \<times> store" where
  "batch fn s =
     (if active (batch_ctx s) then exec_all fn s
      else
        (case exec_all fn (s\<lparr>batch_ctx := emptyBatch\<lparr>active := True\<rparr>\<rparr>) of
           (Some err, s1) \<Rightarrow> (Some err, rollback s1)
         | (None, s1) \<Rightarrow> commit s1))"
| "exec (CSet n key v) s = unit_result (set_field n key v s)"
| "exec (CHandleBatch n updates) s = unit_result (handle_batch n updates s)"
| "exec (CHandleReset n) s = unit_result (handle_reset n s)"
| "exec (CRestore data) s = unit_result (restore data s)"
| "exec CResetState s = unit_result (resetState s)"
| "exec CReset s = (None, reset s)"
| "exec (CBatch fn) s = batch fn s"
| "exec (CThrow e) s = (Some e, s)"
| "exec_all [] s = (None, s)"
| "exec_all (c # cs) s =
     (case exec c s of
        (Some e, s') \<Rightarrow> (Some e, s')
      | (None, s') \<Rightarrow> exec_all cs s')"

section \<open>The Signal-based store (\<open>src/unnamed/part_001\<close>)\<close>

text \<open>
  The second variant of the store keeps the same data under other names, so the model
  reuses the records above: a \<open>SliceRecord\<close> is a \<open>slice_handle\<close> (\<open>fieldSignals\<close> is
  \<open>fieldListeners\<close>, the listeners of \<open>signal\<close> are \<open>sliceListeners\<close>, \<open>definition.defaults\<close> is
  \<open>defaults\<close>), \<open>_batching\<close> is \<open>active\<close>, \<open>_batchSnapshot\<close> is \<open>snapshots\<close>,
  \<open>_batchDirtySlices\<close> is \<open>dirtySlices\<close>, \<open>_batchPendingFields\<close> is \<open>pendingFields\<close> and the
  listeners of \<open>onChange\<close> are \<open>storeListeners\<close>. A field has a \<open>Signal\<close> once \<open>on\<close> was called
  for it: its key is then in \<open>fieldListeners\<close>.
\<close>

text \<open>
  \<open>Signal.emit\<close> of \<open>src/lib/signal.ts\<close> for listeners that were registered with \<open>add\<close> and
  do not call back into the signal: every listener runs, the first error is kept.
\<close>

fun emitSignal ::
  "listener list \<Rightarrow> payload \<Rightarrow> error option \<Rightarrow> event list \<Rightarrow> error option \<times> event list" where
  "emitSignal [] p firstError ev = (firstError, ev)"
| "emitSignal (l # ls) p firstError ev =
     emitSignal ls p (case firstError of None \<Rightarrow> run l p | Some e \<Rightarrow> Some e)
       (ev @ [Invoke (lid l) p])"

text \<open>The handle's \<open>get\<close> clones a non-primitive value; \<open>getAll\<close> clones the state.\<close>

definition get_sig :: "string \<Rightarrow> string \<Rightarrow> store \<Rightarrow> val outcome \<times> store" where
  "get_sig n key s =
     (case map_of (slices s) n of
        None \<Rightarrow> (Raise (NotRegistered n), s)
      | Some r \<Rightarrow>
          (case field (state r) key of
             VObj b fs \<Rightarrow>
               (case structuredClone (heap s) (VObj b fs) of (c, a) \<Rightarrow> (Return c, s\<lparr>heap := a\<rparr>))
           | v \<Rightarrow> (Return v, s)))"

definition getAll_sig :: "string \<Rightarrow> store \<Rightarrow> val outcome \<times> store" where
  "getAll_sig n s =
     (case map_of (slices s) n of
        None \<Rightarrow> (Raise (NotRegistered n), s)
      | Some r \<Rightarrow>
          (case cloneState (heap s) (state r) of (fs, a) \<Rightarrow> (Return (VObj (heap s) fs), s\<lparr>heap := a\<rparr>)))"

text \<open>\<open>getFullState\<close>: a shallow copy of every slice state, by name.\<close>

definition getFullState :: "store \<Rightarrow> (string \<times> fields) list" where
  "getFullState s = map (\<lambda>(n, r). (n, state r)) (slices s)"

definition emitOnChange :: "store \<Rightarrow> error option \<times> store" where
  "emitOnChange s =
     (case emitSignal (storeListeners s) (StoreState (getFullState s)) None
             (events s @ [Fire StoreEmitter (StoreState (getFullState s))]) of
        (r, ev) \<Rightarrow> (r, s\<lparr>events := ev\<rparr>))"

text \<open>\<open>const signal = record.fieldSignals.get(key); if (signal) signal.emit({value, prev})\<close>.\<close>

definition emitField ::
  "string \<Rightarrow> slice_handle \<Rightarrow> string \<Rightarrow> val \<Rightarrow> val \<Rightarrow> event list \<Rightarrow> error option \<times> event list" where
  "emitField n r key v prev ev =
     (case map_of (fieldListeners r) key of
        None \<Rightarrow> (None, ev)
      | Some subs \<Rightarrow>
          emitSignal subs (FieldChange v prev) None
            (ev @ [Fire (FieldEmitter n key) (FieldChange v prev)]))"

text \<open>\<open>record.signal.emit({ ...record.state })\<close>.\<close>

definition emitSlice :: "string \<Rightarrow> slice_handle \<Rightarrow> event list \<Rightarrow> error option \<times> event list" where
  "emitSlice n r ev =
     emitSignal (sliceListeners r) (SliceState (state r)) None
       (ev @ [Fire (SliceEmitter n) (SliceState (state r))])"

text \<open>
  The middleware loop of \<open>_updateSlice\<close>: an error of the middleware at index \<open>i\<close> is
  wrapped with the slice name and the index, the cause attached.
\<close>

fun runMiddleware_sig ::
  "string \<Rightarrow> nat \<Rightarrow> middleware list \<Rightarrow> fields \<Rightarrow> fields \<Rightarrow> error + fields option" where
  "runMiddleware_sig n i [] st processed = Inr (Some processed)"
| "runMiddleware_sig n i (mw # mws) st processed =
     (case mw st processed of
        Inl e \<Rightarrow> Inl (MiddlewareFailed n i e)
      | Inr None \<Rightarrow> Inr None
      | Inr (Some result) \<Rightarrow> runMiddleware_sig n (Suc i) mws st result)"

text \<open>The diff loop of \<open>_updateSlice\<close>: it writes each changed key into \<open>record.state\<close>.\<close>

fun diffLoop :: "string list \<Rightarrow> fields \<Rightarrow> fields \<Rightarrow> string list \<Rightarrow> fields \<times> string list" where
  "diffLoop [] cloned st changedKeys = (st, changedKeys)"
| "diffLoop (key # keys) cloned st changedKeys =
     (if \<not> object_is (field st key) (field cloned key)
      then diffLoop keys cloned (AList.update key (field cloned key) st) (changedKeys @ [key])
      else diffLoop keys cloned st changedKeys)"

fun mergeKeys ::
  "string list \<Rightarrow> fields \<Rightarrow> fields \<Rightarrow> (string \<times> val \<times> val) list \<Rightarrow> (string \<times> val \<times> val) list" where
  "mergeKeys [] prev st flds = flds"
| "mergeKeys (key # keys) prev st flds =
     mergeKeys keys prev st (mergePending key (field prev key) (field st key) flds)"

fun emitKeys ::
  "string \<Rightarrow> slice_handle \<Rightarrow> string list \<Rightarrow> fields \<Rightarrow> event list \<Rightarrow> error option \<times> event list" where
  "emitKeys n r [] prev ev = (None, ev)"
| "emitKeys n r (key # keys) prev ev =
     (case emitField n r key (field (state r) key) (field prev key) ev of
        (Some e, ev') \<Rightarrow> (Some e, ev')
      | (None, ev') \<Rightarrow> emitKeys n r keys prev ev')"

text \<open>\<open>SlicedStore._updateSlice(name, partial)\<close>; \<open>set\<close> and \<open>update\<close> of a handle call it.\<close>

definition updateSlice :: "string \<Rightarrow> fields \<Rightarrow> store \<Rightarrow> unit outcome \<times> store" where
  "updateSlice n partial s =
     (case map_of (slices s) n of
        None \<Rightarrow> (Raise (NotRegistered n), s)
      | Some r \<Rightarrow>
          (case runMiddleware_sig n 0 (middleware r) (state r) partial of
             Inl e \<Rightarrow> (Raise e, s)
           | Inr None \<Rightarrow> (Return (), s)
           | Inr (Some processed) \<Rightarrow>
               let s1 = takeSnapshot n (state r) s in
               (case cloneState (heap s1) processed of (clonedProcessed, a) \<Rightarrow>
                  let prev = state r in
                  (case diffLoop (map fst clonedProcessed) clonedProcessed (state r) [] of
                     (st, changedKeys) \<Rightarrow>
                       let r' = r\<lparr>state := st\<rparr>;
                           s2 = s1\<lparr>heap := a, slices := AList.update n r' (slices s1)\<rparr>
                       in
                       if changedKeys = [] then (Return (), s2)
                       else if active (batch_ctx s2) then
                         (Return (),
                          s2\<lparr>batch_ctx := (batch_ctx s2)
                              \<lparr>pendingFields :=
                                 AList.update n
                                   (mergeKeys changedKeys prev st (pendingOf n (batch_ctx s2)))
                                   (pendingFields (batch_ctx s2)),
                               dirtySlices := set_add n (dirtySlices (batch_ctx s2))\<rparr>\<rparr>)
                       else
                         (case emitKeys n r' changedKeys prev (events s2) of
                            (Some e, ev) \<Rightarrow> (Raise e, s2\<lparr>events := ev\<rparr>)
                          | (None, ev) \<Rightarrow>
                              (case emitSlice n r' ev of
                                 (Some e, ev') \<Rightarrow> (Raise e, s2\<lparr>events := ev'\<rparr>)
                               | (None, ev') \<Rightarrow>
                                   (case emitOnChange (s2\<lparr>events := ev'\<rparr>) of
                                      (Some e, s3) \<Rightarrow> (Raise e, s3)
                                    | (None, s3) \<Rightarrow> (Return (), s3))))))))"

definition set_sig :: "string \<Rightarrow> string \<Rightarrow> val \<Rightarrow> store \<Rightarrow> unit outcome \<times> store" where
  "set_sig n key v s = updateSlice n [(key, v)] s"

definition update_sig :: "string \<Rightarrow> fields \<Rightarrow> store \<Rightarrow> unit outcome \<times> store" where
  "update_sig n partial s = updateSlice n partial s"

text \<open>\<open>_emitFieldSignals\<close> and \<open>_notifySliceChange(name, record, oldState)\<close>.\<close>

fun emitFieldSignals ::
  "string \<Rightarrow> slice_handle \<Rightarrow> string list \<Rightarrow> fields \<Rightarrow> fields \<Rightarrow> event list
     \<Rightarrow> error option \<times> event list" where
  "emitFieldSignals n r [] old new ev = (None, ev)"
| "emitFieldSignals n r (key # keys) old new ev =
     (if \<not> object_is (field old key) (field new key) then
        (case emitField n r key (field new key) (field old key) ev of
           (Some e, ev') \<Rightarrow> (Some e, ev')
         | (None, ev') \<Rightarrow> emitFieldSignals n r keys old new ev')
      else emitFieldSignals n r keys old new ev)"

definition notifySliceChange ::
  "string \<Rightarrow> slice_handle \<Rightarrow> fields \<Rightarrow> store \<Rightarrow> error option \<times> store" where
  "notifySliceChange n r oldState s =
     (if active (batch_ctx s) then
        (let b = batch_ctx s;
             snaps = (if map_of (snapshots b) n = None
                      then AList.update n oldState (snapshots b) else snapshots b)
         in
         (None,
          s\<lparr>batch_ctx := b
              \<lparr>snapshots := snaps,
               pendingFields :=
                 AList.update n
                   (mergeChanged (allKeys oldState (state r)) oldState (state r) (pendingOf n b))
                   (pendingFields b),
               dirtySlices := set_add n (dirtySlices b)\<rparr>\<rparr>))
      else
        (case emitFieldSignals n r (allKeys oldState (state r)) oldState (state r) (events s) of
           (Some e, ev) \<Rightarrow> (Some e, s\<lparr>events := ev\<rparr>)
         | (None, ev) \<Rightarrow>
             (case emitSlice n r ev of (res, ev') \<Rightarrow> (res, s\<lparr>events := ev'\<rparr>))))"

text \<open>\<open>restore(data)\<close> of the Signal-based store: the clone replaces the state.\<close>

fun restore_sig_loop :: "(string \<times> val) list \<Rightarrow> bool \<Rightarrow> store \<Rightarrow> error option \<times> bool \<times> store" where
  "restore_sig_loop [] anyRestored s = (None, anyRestored, s)"
| "restore_sig_loop ((n, sliceData) # rest) anyRestored s =
     (case map_of (slices s) n of
        None \<Rightarrow> restore_sig_loop rest anyRestored s
      | Some r \<Rightarrow>
          (case sliceData of
             VObj _ dataFields \<Rightarrow>
               let oldState = state r in
               (case cloneState (heap s) dataFields of (clonedData, a) \<Rightarrow>
                  let r' = r\<lparr>state := clonedData\<rparr>;
                      s1 = s\<lparr>heap := a, slices := AList.update n r' (slices s)\<rparr>
                  in
                  (case notifySliceChange n r' oldState s1 of
                     (Some e, s2) \<Rightarrow> (Some e, anyRestored, s2)
                   | (None, s2) \<Rightarrow> restore_sig_loop rest True s2))
           | _ \<Rightarrow> restore_sig_loop rest anyRestored s))"

definition restore_sig :: "(string \<times> val) list \<Rightarrow> store \<Rightarrow> unit outcome \<times> store" where
  "restore_sig data s =
     (case restore_sig_loop data False s of
        (Some e, _, s1) \<Rightarrow> (Raise e, s1)
      | (None, anyRestored, s1) \<Rightarrow>
          if \<not> active (batch_ctx s1) \<and> anyRestored then
            (case emitOnChange s1 of
               (Some e, s2) \<Rightarrow> (Raise e, s2)
             | (None, s2) \<Rightarrow> (Return (), s2))
          else (Return (), s1))"

fun resetState_sig_loop :: "string list \<Rightarrow> bool \<Rightarrow> store \<Rightarrow> error option \<times> bool \<times> store" where
  "resetState_sig_loop [] anyReset s = (None, anyReset, s)"
| "resetState_sig_loop (n # ns) anyReset s =
     (case map_of (slices s) n of
        None \<Rightarrow> resetState_sig_loop ns anyReset s
      | Some r \<Rightarrow>
          let oldState = state r in
          (case cloneState (heap s) (defaults r) of (d, a) \<Rightarrow>
             let r' = r\<lparr>state := d\<rparr>;
                 s1 = s\<lparr>heap := a, slices := AList.update n r' (slices s)\<rparr>
             in
             (case notifySliceChange n r' oldState s1 of
                (Some e, s2) \<Rightarrow> (Some e, anyReset, s2)
              | (None, s2) \<Rightarrow> resetState_sig_loop ns True s2)))"

definition resetState_sig :: "store \<Rightarrow> unit outcome \<times> store" where
  "resetState_sig s =
     (case resetState_sig_loop (map fst (slices s)) False s of
        (Some e, _, s1) \<Rightarrow> (Raise e, s1)
      | (None, anyReset, s1) \<Rightarrow>
          if \<not> active (batch_ctx s1) \<and> anyReset then
            (case emitOnChange s1 of
               (Some e, s2) \<Rightarrow> (Raise e, s2)
             | (None, s2) \<Rightarrow> (Return (), s2))
          else (Return (), s1))"

text \<open>The two exits of \<open>batch\<close> in the Signal-based store; the rollback is the same code.\<close>

fun emitFields ::
  "string \<Rightarrow> slice_handle \<Rightarrow> (string \<times> val \<times> val) list \<Rightarrow> event list \<Rightarrow> error option \<times> event list" where
  "emitFields n r [] ev = (None, ev)"
| "emitFields n r ((key, prev, v) # rest) ev =
     (case emitField n r key v prev ev of
        (Some e, ev') \<Rightarrow> (Some e, ev')
      | (None, ev') \<Rightarrow> emitFields n r rest ev')"

fun emitPending ::
  "(string \<times> (string \<times> val \<times> val) list) list \<Rightarrow> store \<Rightarrow> error option \<times> store" where
  "emitPending [] s = (None, s)"
| "emitPending ((n, flds) # rest) s =
     (case map_of (slices s) n of
        None \<Rightarrow> emitPending rest s
      | Some r \<Rightarrow>
          (case emitFields n r flds (events s) of
             (Some e, ev) \<Rightarrow> (Some e, s\<lparr>events := ev\<rparr>)
           | (None, ev) \<Rightarrow> emitPending rest (s\<lparr>events := ev\<rparr>)))"

fun emitDirty :: "string list \<Rightarrow> store \<Rightarrow> error option \<times> store" where
  "emitDirty [] s = (None, s)"
| "emitDirty (n # ns) s =
     (case map_of (slices s) n of
        None \<Rightarrow> emitDirty ns s
      | Some r \<Rightarrow>
          (case emitSlice n r (events s) of
             (Some e, ev) \<Rightarrow> (Some e, s\<lparr>events := ev\<rparr>)
           | (None, ev) \<Rightarrow> emitDirty ns (s\<lparr>events := ev\<rparr>)))"

definition commit_sig :: "store \<Rightarrow> error option \<times> store" where
  "commit_sig s =
     (let s1 = s\<lparr>batch_ctx := (batch_ctx s)\<lparr>active := False\<rparr>\<rparr> in
      case emitPending (pendingFields (batch_ctx s1)) s1 of
        (Some e, s2) \<Rightarrow> (Some e, s2)
      | (None, s2) \<Rightarrow>
          (case emitDirty (dirtySlices (batch_ctx s2)) s2 of
             (Some e, s3) \<Rightarrow> (Some e, s3)
           | (None, s3) \<Rightarrow>
               (case (if dirtySlices (batch_ctx s3) \<noteq> [] then emitOnChange s3
                      else (None, s3)) of
                  (Some e, s4) \<Rightarrow> (Some e, s4)
                | (None, s4) \<Rightarrow> (None, s4\<lparr>batch_ctx := emptyBatch\<rparr>))))"

datatype sig_cmd =
    SSet string string val
  | SUpdate string fields
  | SRestore "(string \<times> val) list"
  | SResetState
  | SReset
  | SBatch "sig_cmd list"
  | SThrow error

fun batch_sig :: "sig_cmd list \<Rightarrow> store \<Rightarrow> error option \<times> store"
  and exec_sig :: "sig_cmd \<Rightarrow> store \<Rightarrow> error option \<times> store"
  and exec_all_sig :: "sig_cmd list \<Rightarrow> store \<Rightarrow> error option \<times> store" where
  "batch_sig fn s =
     (if active (batch_ctx s) then exec_all_sig fn s
      else
        (case exec_all_sig fn (s\<lparr>batch_ctx := emptyBatch\<lparr>active := True\<rparr>\<rparr>) of
           (Some err, s1) \<Rightarrow> (Some err, rollback s1)
         | (None, s1) \<Rightarrow> commit_sig s1))"
| "exec_sig (SSet n key v) s = unit_result (set_sig n key v s)"
| "exec_sig (SUpdate n partial) s = unit_result (update_sig n partial s)"
| "exec_sig (SRestore data) s = unit_result (restore_sig data s)"
| "exec_sig SResetState s = unit_result (resetState_sig s)"
| "exec_sig SReset s = (None, reset s)"
| "exec_sig (SBatch fn) s = batch_sig fn s"
| "exec_sig (SThrow e) s = (Some e, s)"
| "exec_all_sig [] s = (None, s)"
| "exec_all_sig (c # cs) s =
     (case exec_sig c s of
        (Some e, s') \<Rightarrow> (Some e, s')
      | (None, s') \<Rightarrow> exec_all_sig cs s')"

section \<open>Notions used by the properties\<close>

text \<open>The current state of the slice registered as \<open>n\<close>.\<close>

definition state_of :: "store \<Rightarrow> string \<Rightarrow> fields" where
  "state_of s n = (case map_of (slices s) n of None \<Rightarrow> [] | Some h \<Rightarrow> state h)"

text \<open>
  Some middleware of the chain returns the rejection sentinel: the middleware at index
  \<open>i\<close>, reached with the partial \<open>p\<close> that its predecessors produced, returns \<open>null\<close>.
\<close>

definition rejects :: "middleware list \<Rightarrow> fields \<Rightarrow> fields \<Rightarrow> bool" where
  "rejects mws st incoming =
     (\<exists>i < length mws. \<exists>p. runMiddleware (take i mws) st incoming = Inr (Some p) \<and>
        (mws ! i) st p = Inr None)"

text \<open>
  The listeners of a field, the calls of a list of listeners in order, listeners that never
  raise, and a middleware chain in which every middleware hands the partial back as it is.
\<close>

definition listenersOf :: "slice_handle \<Rightarrow> string \<Rightarrow> listener list" where
  "listenersOf h key = (case map_of (fieldListeners h) key of None \<Rightarrow> [] | Some ls \<Rightarrow> ls)"

definition invokes :: "listener list \<Rightarrow> payload \<Rightarrow> event list" where
  "invokes ls p = map (\<lambda>l. Invoke (lid l) p) ls"

definition quiet :: "listener list \<Rightarrow> bool" where
  "quiet ls = (\<forall>l \<in> set ls. \<forall>p. run l p = None)"

definition passes :: "middleware list \<Rightarrow> fields \<Rightarrow> fields \<Rightarrow> bool" where
  "passes mws st incoming = (\<forall>mw \<in> set mws. mw st incoming = Inr (Some incoming))"

text \<open>
  A body is batch-aware when it never calls the hard \<open>reset\<close>, neither directly nor in a
  nested batch.
\<close>

fun batch_aware :: "cmd \<Rightarrow> bool" where
  "batch_aware CReset = False"
| "batch_aware (CBatch fn) = list_all batch_aware fn"
| "batch_aware _ = True"

fun batch_aware_sig :: "sig_cmd \<Rightarrow> bool" where
  "batch_aware_sig SReset = False"
| "batch_aware_sig (SBatch fn) = list_all batch_aware_sig fn"
| "batch_aware_sig _ = True"

text \<open>
  Every handle that a body of the class-based store calls belongs to a slice registered
  under one of the names \<open>ns\<close>.
\<close>

fun uses_registered :: "string list \<Rightarrow> cmd \<Rightarrow> bool" where
  "uses_registered ns (CSet n key v) = (n \<in> set ns)"
| "uses_registered ns (CHandleBatch n updates) = (n \<in> set ns)"
| "uses_registered ns (CHandleReset n) = (n \<in> set ns)"
| "uses_registered ns (CBatch fn) = list_all (uses_registered ns) fn"
| "uses_registered ns c = True"

text \<open>
  The store at the start of the outermost \<open>batch\<close>: \<open>this._batch.active = true\<close> and the
  three collections of the context cleared.
\<close>

definition begin_batch :: "store \<Rightarrow> store" where
  "begin_batch s = s\<lparr>batch_ctx := emptyBatch\<lparr>active := True\<rparr>\<rparr>"

text \<open>
  The invariant of a running batch that began in the store \<open>s0\<close>. A handle keeps its
  defaults, middleware and listeners. A slice without a snapshot still has its pre-batch
  state, and a snapshot is a deep copy of the pre-batch state. The pending diff of a field
  holds the pre-batch value as \<open>prev\<close> and the current value as \<open>value\<close>, and a field without a
  pending diff has its pre-batch value. The dirty slices are the slices with a pending map,
  all of them registered, and no emitter has fired since the batch began.
\<close>

definition same_handle :: "slice_handle \<Rightarrow> slice_handle \<Rightarrow> bool" where
  "same_handle h0 h = (defaults h = defaults h0 \<and> middleware h = middleware h0
     \<and> fieldListeners h = fieldListeners h0 \<and> sliceListeners h = sliceListeners h0)"

definition pending_ok :: "(string \<times> val \<times> val) list \<Rightarrow> fields \<Rightarrow> fields \<Rightarrow> bool" where
  "pending_ok flds st0 st =
     (\<forall>key. case map_of flds key of
        Some (prev, v) \<Rightarrow> object_is prev (field st0 key) \<and> object_is v (field st key)
      | None \<Rightarrow> object_is (field st key) (field st0 key))"

definition key_ok :: "(string \<times> val \<times> val) list \<Rightarrow> fields \<Rightarrow> fields \<Rightarrow> string \<Rightarrow> bool" where
  "key_ok flds st0 st key =
     (case map_of flds key of
        Some (prev, v) \<Rightarrow> object_is prev (field st0 key) \<and> object_is v (field st key)
      | None \<Rightarrow> object_is (field st key) (field st0 key))"

definition snapshot_ok :: "fields option \<Rightarrow> fields \<Rightarrow> fields \<Rightarrow> bool" where
  "snapshot_ok snap st0 st =
     (case snap of Some c \<Rightarrow> shape_fields c = shape_fields st0 | None \<Rightarrow> st = st0)"

definition in_batch :: "store \<Rightarrow> store \<Rightarrow> bool" where
  "in_batch s0 s =
     (active (batch_ctx s) \<and> events s = events s0 \<and> storeListeners s = storeListeners s0
      \<and> map fst (slices s) = map fst (slices s0)
      \<and> (\<forall>n h0. map_of (slices s0) n = Some h0 \<longrightarrow>
           (\<exists>h. map_of (slices s) n = Some h \<and> same_handle h0 h
              \<and> snapshot_ok (map_of (snapshots (batch_ctx s)) n) (state h0) (state h)
              \<and> pending_ok (pendingOf n (batch_ctx s)) (state h0) (state h)
              \<and> distinct (map fst (pendingOf n (batch_ctx s)))))
      \<and> distinct (map fst (snapshots (batch_ctx s)))
      \<and> distinct (dirtySlices (batch_ctx s))
      \<and> distinct (map fst (pendingFields (batch_ctx s)))
      \<and> set (dirtySlices (batch_ctx s)) = set (map fst (pendingFields (batch_ctx s)))
      \<and> set (dirtySlices (batch_ctx s)) \<subseteq> set (map fst (slices s0)))"

text \<open>Pending diffs and dirty marks are never dropped while the batch runs.\<close>

definition grows :: "store \<Rightarrow> store \<Rightarrow> bool" where
  "grows s s' =
     ((\<forall>n key. key \<in> set (map fst (pendingOf n (batch_ctx s))) \<longrightarrow>
                key \<in> set (map fst (pendingOf n (batch_ctx s'))))
      \<and> set (dirtySlices (batch_ctx s)) \<subseteq> set (dirtySlices (batch_ctx s')))"

text \<open>
  The store after a rollback, compared with the store before the batch: nothing was
  notified, the context is cleared, and every slice has its handle and a state that is
  deep-equal to its pre-batch state.
\<close>

definition restored :: "store \<Rightarrow> store \<Rightarrow> bool" where
  "restored s s' =
     (events s' = events s \<and> batch_ctx s' = emptyBatch \<and> storeListeners s' = storeListeners s
      \<and> map fst (slices s') = map fst (slices s)
      \<and> (\<forall>n h. map_of (slices s) n = Some h \<longrightarrow>
            (\<exists>h'. map_of (slices s') n = Some h' \<and> same_handle h h'
                   \<and> shape_fields (state h') = shape_fields (state h))))"

text \<open>
  The emitters that fired in a trace, with their payloads, in order; and those that fired
  between two stores.
\<close>

fun fires :: "event list \<Rightarrow> (emitter \<times> payload) list" where
  "fires [] = []"
| "fires (Fire e p # ev) = (e, p) # fires ev"
| "fires (Invoke i p # ev) = fires ev"

definition notified :: "store \<Rightarrow> store \<Rightarrow> (emitter \<times> payload) list" where
  "notified s s' = fires (drop (length (events s)) (events s'))"

text \<open>
  What the flush of a batch is to notify in the class-based store: every pending field
  diff, slice by slice, with \<open>(value, prev)\<close>; then every dirty slice with its state; then
  the store, when a slice is dirty.
\<close>

definition fieldFires :: "string \<Rightarrow> (string \<times> val \<times> val) list \<Rightarrow> (emitter \<times> payload) list" where
  "fieldFires n flds = map (\<lambda>(key, prev, v). (FieldEmitter n key, FieldChange v prev)) flds"

definition coalesced :: "store \<Rightarrow> (emitter \<times> payload) list" where
  "coalesced s =
     concat (map (\<lambda>(n, flds). fieldFires n flds) (pendingFields (batch_ctx s)))
     @ map (\<lambda>n. (SliceEmitter n, SliceState (state_of s n))) (dirtySlices (batch_ctx s))
     @ (if dirtySlices (batch_ctx s) = [] then []
        else [(StoreEmitter, StoreState (fst (getState s)))])"

text \<open>No listener of the store raises.\<close>

definition all_quiet :: "store \<Rightarrow> bool" where
  "all_quiet s =
     (quiet (storeListeners s)
      \<and> (\<forall>n h. map_of (slices s) n = Some h \<longrightarrow>
            quiet (sliceListeners h) \<and> (\<forall>key. quiet (listenersOf h key))))"

text \<open>
  What the flush of a batch is to notify in the Signal-based store: a pending field diff
  only when the field has a \<open>Signal\<close>, and the store with the shallow copy of all states.
\<close>

definition signalFires :: "slice_handle \<Rightarrow> string \<Rightarrow> (string \<times> val \<times> val) list \<Rightarrow> (emitter \<times> payload) list" where
  "signalFires r n flds =
     fieldFires n (filter (\<lambda>(key, d). map_of (fieldListeners r) key \<noteq> None) flds)"

definition coalesced_sig :: "store \<Rightarrow> (emitter \<times> payload) list" where
  "coalesced_sig s =
     concat (map (\<lambda>(n, flds). case map_of (slices s) n of
                                  None \<Rightarrow> [] | Some r \<Rightarrow> signalFires r n flds)
               (pendingFields (batch_ctx s)))
     @ map (\<lambda>n. (SliceEmitter n, SliceState (state_of s n))) (dirtySlices (batch_ctx s))
     @ (if dirtySlices (batch_ctx s) = [] then []
        else [(StoreEmitter, StoreState (getFullState s))])"








section \<open>Example slices\<close>

text \<open>
  The wallet and spin slices of the repository's tests, a middleware that rejects every
  write of \<open>bet\<close>, a listener that only observes and one that raises.
\<close>

definition walletDefaults :: fields where
  "walletDefaults = [(''balance'', VNum 1000), (''bet'', VNum 1), (''currency'', VStr ''USD'')]"

definition spinDefaults :: fields where
  "spinDefaults = [(''remaining'', VNum 5), (''total'', VNum 10), (''multiplier'', VNum 1)]"

definition blockBet :: middleware where
  "blockBet st incoming = (if map_of incoming ''bet'' = None then Inr (Some incoming) else Inr None)"

definition observer :: "nat \<Rightarrow> listener" where
  "observer i = \<lparr>lid = i, run = (\<lambda>_. None)\<rparr>"

definition thrower :: "nat \<Rightarrow> listener" where
  "thrower i = \<lparr>lid = i, run = (\<lambda>_. Some (JsError ''boom''))\<rparr>"

definition sliceOf :: "fields \<Rightarrow> middleware list \<Rightarrow> slice_handle" where
  "sliceOf d mws =
     \<lparr>state = d, defaults = d, middleware = mws, fieldListeners = [], sliceListeners = []\<rparr>"

definition walletStore :: "middleware list \<Rightarrow> store" where
  "walletStore mws =
     \<lparr>slices =
        [(''wallet'',
          (sliceOf walletDefaults mws)
            \<lparr>fieldListeners := [(''bet'', [observer 1])], sliceListeners := [observer 2]\<rparr>),
         (''spin'', sliceOf spinDefaults [])],
      storeListeners = [observer 3],
      batch_ctx = emptyBatch,
      heap = 100,
      events = []\<rparr>"

text \<open>
  Signals of the repository's tests: three listeners of which the second and the third
  raise, a listener that detaches the entry after it, and a once-listener that emits
  again while it runs.
\<close>

definition emptySignal :: signal where
  "emptySignal = \<lparr>bindings = [], next_eid = 0, calls = []\<rparr>"

definition boomSecond :: program where
  "boomSecond f v =
     (if f = 2 then [Throw (JsError ''boom'')]
      else if f = 3 then [Throw (JsError ''second'')] else [])"

definition detachNext :: program where
  "detachNext f v = (if f = 1 then [Detach 1] else [])"


definition threeListeners :: signal where
  "threeListeners = signal_add 3 (signal_add 2 (signal_add 1 emptySignal))"

definition twoListeners :: signal where
  "twoListeners = signal_add 2 (signal_add 1 emptySignal)"

definition twoOnce :: signal where
  "twoOnce = signal_once 2 (signal_once 1 emptySignal)"

text \<open>A slice with an object-valued field, as in the tests of the defensive cloning.\<close>

definition nestedStore :: store where
  "nestedStore =
     \<lparr>slices = [(''nested'', sliceOf [(''obj'', VObj 5 [(''a'', VNum 1)])] [])],
      storeListeners = [],
      batch_ctx = emptyBatch,
      heap = 100,
      events = []\<rparr>"

text \<open>A middleware that passes every partial through.\<close>

definition passThrough :: middleware where
  "passThrough st incoming = Inr (Some incoming)"

text \<open>A store in which the wallet has left its defaults.\<close>

definition playedStore :: store where
  "playedStore = (walletStore [])\<lparr>slices :=
      [(''wallet'',
        (sliceOf walletDefaults [])
          \<lparr>state := [(''balance'', VNum 900), (''bet'', VNum 50), (''currency'', VStr ''USD'')],
           fieldListeners := [(''bet'', [observer 1])], sliceListeners := [observer 2]\<rparr>),
       (''spin'', sliceOf spinDefaults [])]\<rparr>"

(* PROOFS *)

lemmas example_defs = walletStore_def nestedStore_def passThrough_def sliceOf_def walletDefaults_def spinDefaults_def blockBet_def
  observer_def thrower_def emptyBatch_def

lemmas store_defs = set_field_def field_def object_is_def takeSnapshot_def flushField_def
  flushSlice_def notifyStoreListeners_def getState_def cloneState_def Let_def get_def

section \<open>Properties of the emitter\<close>

lemma find_append_none:
  "\<forall>x \<in> set pre. \<not> Q x \<Longrightarrow> List.find Q (pre @ rest) = List.find Q rest"
  by (induction pre) auto

lemma find_all_false: "\<forall>x \<in> set xs. \<not> Q x \<Longrightarrow> List.find Q xs = None"
  by (induction xs) auto

lemma run_body_passive:
  "P f v = [] \<or> (\<exists>x. P f v = [Throw x]) \<Longrightarrow>
   run_body (Suc n) P (P f v) s = Some (raised P v \<lparr>eid = i, entry_fn = f, entry_once = b\<rparr>, s)"
  by (auto simp: raised_def)

lemma raised_fn: "raised P v e = raised P v \<lparr>eid = i, entry_fn = entry_fn e, entry_once = b\<rparr>"
  by (simp add: raised_def)

lemma filter_neq_sorted:
  assumes "sorted_wrt (<) (map eid (pre @ e # rest))"
  shows "filter (\<lambda>x. eid x \<noteq> eid e) (pre @ e # rest) = pre @ rest"
proof -
  from assms have "\<forall>x \<in> set pre. eid x < eid e" "\<forall>x \<in> set rest. eid e < eid x"
    by (auto simp: sorted_wrt_append)
  then have "filter (\<lambda>x. eid x \<noteq> eid e) pre = pre" "filter (\<lambda>x. eid x \<noteq> eid e) rest = rest"
    by (auto intro!: filter_True)
  then show ?thesis by simp
qed

lemma emit_loop_passive:
  assumes "passive_listeners P"
  shows "bindings s = pre @ rest \<Longrightarrow> sorted_wrt (<) (map eid (pre @ rest)) \<Longrightarrow>
         \<forall>e \<in> set pre. eid e < cursor \<Longrightarrow> \<forall>e \<in> set rest. cursor \<le> eid e \<Longrightarrow>
         length rest < fuel \<Longrightarrow>
         emit_loop fuel P v cursor firstError s =
           Some (first_error (firstError # map (raised P v) rest),
                 s\<lparr>bindings := pre @ filter (\<lambda>e. \<not> entry_once e) rest,
                   calls := calls s @ map (\<lambda>e. Call (eid e) (entry_fn e) v (\<not> entry_once e)) rest\<rparr>)"
proof (induction rest arbitrary: pre cursor firstError s fuel)
  case Nil
  then obtain n where n: "fuel = Suc n" by (cases fuel) auto
  from Nil have "List.find (\<lambda>e. cursor \<le> eid e) (bindings s) = None"
    by (auto intro!: find_all_false)
  with n Nil show ?case by (cases firstError) auto
next
  case (Cons e rest)
  then obtain n where n: "fuel = Suc n" by (cases fuel) auto
  with Cons.prems obtain m where m: "n = Suc m" by (cases n) auto
  have len: "length rest < n" using Cons.prems n by simp
  have "\<forall>x \<in> set pre. \<not> cursor \<le> eid x" using Cons.prems(3) by auto
  then have "List.find (\<lambda>e. cursor \<le> eid e) (pre @ e # rest) = List.find (\<lambda>e. cursor \<le> eid e) (e # rest)"
    by (rule find_append_none)
  then have fnd: "List.find (\<lambda>e. cursor \<le> eid e) (bindings s) = Some e"
    using Cons.prems(1,4) by simp
  have body: "P (entry_fn e) v = [] \<or> (\<exists>x. P (entry_fn e) v = [Throw x])"
    using assms by (simp add: passive_listeners_def)
  have srt: "sorted_wrt (<) (map eid (pre @ e # rest))" using Cons.prems by simp
  have lt_e: "\<forall>x \<in> set pre. eid x < eid e" "\<forall>x \<in> set rest. eid e < eid x"
    using srt by (auto simp: sorted_wrt_append)
  have notin: "eid e \<notin> eid ` (set pre \<union> set rest)"
    using lt_e by auto
  define fe where "fe = (case firstError of None \<Rightarrow> raised P v e | Some x \<Rightarrow> Some x)"
  have fe: "first_error (fe # map (raised P v) rest) = first_error (firstError # map (raised P v) (e # rest))"
    by (cases firstError; cases "raised P v e") (auto simp: fe_def)
  show ?case
  proof (cases "entry_once e")
    case True
    define s2 where "s2 = (delete_entry (eid e) s)\<lparr>calls := calls s @ [Call (eid e) (entry_fn e) v False]\<rparr>"
    have b2: "bindings s2 = pre @ rest"
      using Cons.prems(1) filter_neq_sorted[OF srt] by (simp add: s2_def delete_entry_def)
    have rb: "run_body n P (P (entry_fn e) v) s2 = Some (raised P v e, s2)"
      using body m by (auto simp: raised_def)
    have srt': "sorted_wrt (<) (map eid (pre @ rest))" using srt by (auto simp: sorted_wrt_append)
    have ih: "emit_loop n P v (Suc (eid e)) fe s2 =
           Some (first_error (fe # map (raised P v) rest),
                 s2\<lparr>bindings := pre @ filter (\<lambda>e. \<not> entry_once e) rest,
                   calls := calls s2 @ map (\<lambda>e. Call (eid e) (entry_fn e) v (\<not> entry_once e)) rest\<rparr>)"
      using lt_e len by (intro Cons.IH[OF b2 srt']) auto
    have step: "emit_loop fuel P v cursor firstError s = emit_loop n P v (Suc (eid e)) fe s2"
      using n fnd True rb Cons.prems(1) filter_neq_sorted[OF srt] notin
      by (simp add: s2_def fe_def delete_entry_def)
    show ?thesis
      unfolding step ih fe using True by (simp add: s2_def delete_entry_def)
  next
    case False
    define s2 where "s2 = s\<lparr>calls := calls s @ [Call (eid e) (entry_fn e) v True]\<rparr>"
    have b2: "bindings s2 = (pre @ [e]) @ rest"
      using Cons.prems(1) by (simp add: s2_def)
    have rb: "run_body n P (P (entry_fn e) v) s2 = Some (raised P v e, s2)"
      using body m by (auto simp: raised_def)
    have srt': "sorted_wrt (<) (map eid ((pre @ [e]) @ rest))" using srt by simp
    have ih: "emit_loop n P v (Suc (eid e)) fe s2 =
           Some (first_error (fe # map (raised P v) rest),
                 s2\<lparr>bindings := (pre @ [e]) @ filter (\<lambda>e. \<not> entry_once e) rest,
                   calls := calls s2 @ map (\<lambda>e. Call (eid e) (entry_fn e) v (\<not> entry_once e)) rest\<rparr>)"
      using lt_e len by (intro Cons.IH[OF b2 srt']) auto
    have step: "emit_loop fuel P v cursor firstError s = emit_loop n P v (Suc (eid e)) fe s2"
      using n fnd False rb Cons.prems(1)
      by (simp add: s2_def fe_def)
    show ?thesis
      unfolding step ih fe using False by (simp add: s2_def)
  qed
qed

lemma emit_passive:
  assumes "wf_signal s" "passive_listeners P" "length (bindings s) < fuel"
  shows "emit fuel P v s =
           Some (first_error (map (raised P v) (bindings s)),
                 s\<lparr>bindings := filter (\<lambda>e. \<not> entry_once e) (bindings s),
                   calls := calls s @ map (\<lambda>e. Call (eid e) (entry_fn e) v (\<not> entry_once e)) (bindings s)\<rparr>)"
  using emit_loop_passive[OF assms(2), of s "[]" "bindings s" 0 fuel v None] assms(1,3)
  by (simp add: emit_def wf_signal_def)




lemma sorted_eid_snoc:
  "sorted_wrt (<) (map eid bs) \<Longrightarrow> \<forall>e \<in> set bs. eid e < k \<Longrightarrow>
   sorted_wrt (<) (map eid (bs @ [\<lparr>eid = k, entry_fn = g, entry_once = b\<rparr>]))"
  by (auto simp: sorted_wrt_append)




















lemma passive_keeps: "passive_listeners P \<Longrightarrow> keeps i f P"
  unfolding passive_listeners_def keeps_def
proof (intro allI ballI)
  fix g v a
  assume p: "\<forall>f v. P f v = [] \<or> (\<exists>x. P f v = [Throw x])" and a: "a \<in> set (P g v)"
  from p have "P g v = [] \<or> (\<exists>x. P g v = [Throw x])" by blast
  with a show "a \<noteq> Clear \<and> a \<noteq> Detach i \<and> a \<noteq> Remove f" by auto
qed

lemma passive_no_reentry: "passive_listeners P \<Longrightarrow> no_reentry P"
  unfolding passive_listeners_def no_reentry_def
proof (intro allI)
  fix g v w
  assume p: "\<forall>f v. P f v = [] \<or> (\<exists>x. P f v = [Throw x])"
  from p have "P g v = [] \<or> (\<exists>x. P g v = [Throw x])" by blast
  then show "Emit w \<notin> set (P g v)" by auto
qed


text \<open>
  C3 (emitter error isolation), for \<open>Signal.emit\<close> of \<open>src/lib/signal.ts\<close> and listeners
  that only return or raise: \<open>emit\<close> returns, every listener registered at the start was
  called exactly once with the value, in registration order, whether or not listeners
  raised, and the error handed to the caller is the first one raised (none when no
  listener raised). The once-entries are gone afterwards.
\<close>

theorem emit_isolation:
  assumes "wf_signal s" "passive_listeners P" "length (bindings s) < fuel"
  shows "\<exists>s'. emit fuel P v s = Some (first_error (map (raised P v) (bindings s)), s')
            \<and> calls s' = calls s @ map (\<lambda>e. Call (eid e) (entry_fn e) v (\<not> entry_once e)) (bindings s)
            \<and> bindings s' = filter (\<lambda>e. \<not> entry_once e) (bindings s)"
  using emit_passive[OF assms, of v] by simp

lemmas signal_defs = emptySignal_def threeListeners_def twoListeners_def twoOnce_def
  signal_add_def signal_once_def delete_entry_def signal_remove_def signal_clear_def



theorem emit_isolation_witness:
  "wf_signal threeListeners \<and> passive_listeners boomSecond \<and> length (bindings threeListeners) < 4
   \<and> (\<exists>s'. emit 4 boomSecond (VNum 7) threeListeners = Some (Some (JsError ''boom''), s')
          \<and> calls s' = [Call 0 1 (VNum 7) True, Call 1 2 (VNum 7) True, Call 2 3 (VNum 7) True]
          \<and> bindings s' = bindings threeListeners)"
proof -
  have wf: "wf_signal threeListeners" by (simp add: wf_signal_def signal_defs)
  have p: "passive_listeners boomSecond" by (simp add: passive_listeners_def boomSecond_def)
  have l: "length (bindings threeListeners) < 4" by (simp add: signal_defs)
  from emit_isolation[OF wf p l, of "VNum 7"] wf p l show ?thesis
    by (simp add: signal_defs raised_def boomSecond_def eval_nat_numeral)
qed

text \<open>
  The claim C3 as written fails on two inputs. The earlier \<open>emit\<close> of
  \<open>src/unnamed/part_000\<close> stops at the first listener that raises: of three listeners, the
  second raising, the third is never called. And a listener of the current \<open>emit\<close> that
  detaches the entry after it keeps that entry, registered at the start of the call,
  from being called.
\<close>

theorem emit_isolation_counterexample:
  "map_option (\<lambda>(r, s'). (r, calls s')) (emit_legacy 10 boomSecond (VNum 1) threeListeners)
     = Some (Some (JsError ''boom''), [Call 0 1 (VNum 1) True, Call 1 2 (VNum 1) True])
   \<and> map entry_fn (bindings threeListeners) = [1, 2, 3]
   \<and> map entry_fn (bindings twoListeners) = [1, 2]
   \<and> map_option (\<lambda>(r, s'). (r, calls s')) (emit 10 detachNext (VNum 1) twoListeners)
     = Some (None, [Call 0 1 (VNum 1) True])"
  by code_simp

section \<open>Properties of the class-based store\<close>

text \<open>
  When listeners do not raise, \<open>callListeners\<close> calls each of them once, in order.
\<close>

lemma callListeners_Return:
  "callListeners ls p ev = (None, ev') \<Longrightarrow> ev' = ev @ map (\<lambda>l. Invoke (lid l) p) ls"
proof (induction ls arbitrary: ev)
  case Nil
  then show ?case by simp
next
  case (Cons l ls)
  from Cons.prems have c: "callListeners ls p (ev @ [Invoke (lid l) p]) = (None, ev')"
    by (auto split: option.splits)
  from Cons.IH[OF c] show ?case by simp
qed



lemma runMiddleware_rejects: "runMiddleware mws st inc = Inr None \<longleftrightarrow> rejects mws st inc"
  unfolding rejects_def
proof (induction mws arbitrary: inc)
  case Nil
  then show ?case by simp
next
  case (Cons mw mws)
  let ?R = "\<lambda>ms x. \<exists>i < length ms. \<exists>p. runMiddleware (take i ms) st x = Inr (Some p) \<and> (ms ! i) st p = Inr None"
  have shift: "?R (mw # mws) inc \<longleftrightarrow>
      mw st inc = Inr None \<or> (\<exists>q. mw st inc = Inr (Some q) \<and> ?R mws q)"
  proof
    assume "?R (mw # mws) inc"
    then obtain i p where i: "i < length (mw # mws)"
      "runMiddleware (take i (mw # mws)) st inc = Inr (Some p)" "((mw # mws) ! i) st p = Inr None"
      by blast
    show "mw st inc = Inr None \<or> (\<exists>q. mw st inc = Inr (Some q) \<and> ?R mws q)"
    proof (cases i)
      case 0
      with i show ?thesis by simp
    next
      case (Suc j)
      with i show ?thesis by (auto split: sum.splits option.splits)
    qed
  next
    assume "mw st inc = Inr None \<or> (\<exists>q. mw st inc = Inr (Some q) \<and> ?R mws q)"
    then show "?R (mw # mws) inc"
    proof
      assume "mw st inc = Inr None"
      then show ?thesis by (intro exI[of _ 0]) simp
    next
      assume "\<exists>q. mw st inc = Inr (Some q) \<and> ?R mws q"
      then obtain q j p where "mw st inc = Inr (Some q)" "j < length mws"
        "runMiddleware (take j mws) st q = Inr (Some p)" "(mws ! j) st p = Inr None" by blast
      then show ?thesis by (intro exI[of _ "Suc j"]) auto
    qed
  qed
  show ?case unfolding shift using Cons.IH
    by (auto split: sum.splits option.splits)
qed

lemma runMiddleware_sig_Inr:
  "runMiddleware_sig n k mws st inc = Inr x \<longleftrightarrow> runMiddleware mws st inc = Inr x"
  by (induction mws arbitrary: k inc) (auto split: sum.splits option.splits)

lemma rejects_sig:
  "rejects mws st inc \<Longrightarrow> runMiddleware_sig n k mws st inc = Inr None"
  by (simp add: runMiddleware_sig_Inr runMiddleware_rejects)

lemma rejects_class:
  "rejects mws st inc \<Longrightarrow> runMiddleware mws st inc = Inr None"
  by (simp add: runMiddleware_rejects)

text \<open>
  C7 (middleware rejection), as amended. When some middleware of the chain returns the
  rejection sentinel, \<open>set\<close> of the class-based handle and \<open>set\<close> and \<open>update\<close> of the
  Signal-based handle return without an error and leave the whole store unchanged: the
  slice state, the batch context with its pending diffs, and the trace of notifications.
  The class-based \<open>set\<close> then returns \<open>false\<close>, unless the value is identical to the
  current one: then the chain is not run and it returns \<open>true\<close>.
\<close>

theorem rejection_is_noop:
  assumes "map_of (slices s) n = Some h"
  shows "(rejects (middleware h) (state h) [(key, v)] \<longrightarrow>
            (\<exists>b. set_field n key v s = (Return b, s)) \<and>
            (\<not> object_is (get h key) v \<longrightarrow> set_field n key v s = (Return False, s)) \<and>
            set_sig n key v s = (Return (), s))
       \<and> (rejects (middleware h) (state h) partial \<longrightarrow> update_sig n partial s = (Return (), s))"
  using assms
  by (auto simp: set_field_def set_sig_def update_sig_def updateSlice_def get_def Let_def
        rejects_sig rejects_class)

theorem rejection_is_noop_witness:
  "map_of (slices (walletStore [blockBet])) ''wallet'' \<noteq> None
   \<and> rejects [blockBet] walletDefaults [(''bet'', VNum 10)]
   \<and> \<not> object_is (field walletDefaults ''bet'') (VNum 10)
   \<and> set_field ''wallet'' ''bet'' (VNum 10) (walletStore [blockBet])
       = (Return False, walletStore [blockBet])
   \<and> set_sig ''wallet'' ''bet'' (VNum 10) (walletStore [blockBet])
       = (Return (), walletStore [blockBet])
   \<and> rejects [blockBet] walletDefaults [(''balance'', VNum 500), (''bet'', VNum 10)]
   \<and> update_sig ''wallet'' [(''balance'', VNum 500), (''bet'', VNum 10)] (walletStore [blockBet])
       = (Return (), walletStore [blockBet])"
proof -
  let ?h = "(sliceOf walletDefaults [blockBet])
            \<lparr>fieldListeners := [(''bet'', [observer 1])], sliceListeners := [observer 2]\<rparr>"
  have h: "map_of (slices (walletStore [blockBet])) ''wallet'' = Some ?h"
    by (simp add: walletStore_def)
  have r1: "rejects [blockBet] walletDefaults [(''bet'', VNum 10)]"
    by (simp add: runMiddleware_rejects[symmetric] blockBet_def)
  have r2: "rejects [blockBet] walletDefaults [(''balance'', VNum 500), (''bet'', VNum 10)]"
    by (simp add: runMiddleware_rejects[symmetric] blockBet_def)
  have d: "\<not> object_is (field walletDefaults ''bet'') (VNum 10)"
    by (simp add: example_defs store_defs)
  from rejection_is_noop[OF h, of "''bet''" "VNum 10" "[(''balance'', VNum 500), (''bet'', VNum 10)]"]
    r1 r2 d
  have "set_field ''wallet'' ''bet'' (VNum 10) (walletStore [blockBet])
          = (Return False, walletStore [blockBet])
      \<and> set_sig ''wallet'' ''bet'' (VNum 10) (walletStore [blockBet])
          = (Return (), walletStore [blockBet])
      \<and> update_sig ''wallet'' [(''balance'', VNum 500), (''bet'', VNum 10)] (walletStore [blockBet])
          = (Return (), walletStore [blockBet])"
    by (simp add: sliceOf_def get_def)
  with h r1 r2 d show ?thesis by simp
qed

text \<open>
  The claim C7 as written fails for the multi-field write of the class-based handle,
  \<open>batch(partial)\<close>, which the specification lists as \<open>update/batch(partial)\<close>: it runs the
  chain once per key, so with a middleware that rejects \<open>bet\<close> the call reports \<open>bet\<close> as
  rejected and still writes \<open>balance\<close>.
\<close>

theorem rejection_counterexample:
  "rejects [blockBet] [(''balance'', VNum 500), (''bet'', VNum 1), (''currency'', VStr ''USD'')]
     [(''bet'', VNum 10)]
   \<and> fst (handle_batch ''wallet'' [(''balance'', VNum 500), (''bet'', VNum 10)]
           (walletStore [blockBet])) = Return [''bet'']
   \<and> state_of (walletStore [blockBet]) ''wallet''
       = [(''balance'', VNum 1000), (''bet'', VNum 1), (''currency'', VStr ''USD'')]
   \<and> state_of (snd (handle_batch ''wallet'' [(''balance'', VNum 500), (''bet'', VNum 10)]
                    (walletStore [blockBet]))) ''wallet''
       = [(''balance'', VNum 500), (''bet'', VNum 1), (''currency'', VStr ''USD'')]"
  by (simp add: runMiddleware_rejects[symmetric] handle_batch_def example_defs store_defs
        state_of_def)

section \<open>Cloning and reads\<close>

lemma clone_shape:
  "shape (fst (structuredClone a v)) = shape v"
  "shape_fields (fst (clone_fields a fs)) = shape_fields fs"
  by (induction a v and a fs rule: structuredClone_clone_fields.induct)
     (auto split: prod.splits)

lemma clone_mono:
  "a \<le> snd (structuredClone a v)"
  "a \<le> snd (clone_fields a fs)"
  by (induction a v and a fs rule: structuredClone_clone_fields.induct)
     (auto split: prod.splits)

lemma clone_fresh:
  "addrs (fst (structuredClone a v)) \<subseteq> {a ..< snd (structuredClone a v)}"
  "addrs_fields (fst (clone_fields a fs)) \<subseteq> {a ..< snd (clone_fields a fs)}"
proof (induction a v and a fs rule: structuredClone_clone_fields.induct)
  case (1 a uu fs)
  obtain fs' a' where c: "clone_fields (Suc a) fs = (fs', a')" by (cases "clone_fields (Suc a) fs")
  from clone_mono(2)[of "Suc a" fs] c have "Suc a \<le> a'" by simp
  with 1 c show ?case by auto
next
  case (8 a k v fs)
  obtain v' a1 where c1: "structuredClone a v = (v', a1)" by (cases "structuredClone a v")
  obtain fs' a2 where c2: "clone_fields a1 fs = (fs', a2)" by (cases "clone_fields a1 fs")
  from clone_mono(1)[of a v] c1 have m1: "a \<le> a1" by simp
  from clone_mono(2)[of a1 fs] c2 have m2: "a1 \<le> a2" by simp
  from 8(1) c1 have f1: "addrs v' \<subseteq> {a ..< a1}" by simp
  from 8(2)[OF c1[symmetric]] c1 c2 have f2: "addrs_fields fs' \<subseteq> {a1 ..< a2}" by simp
  from f1 f2 m1 m2 c1 c2 show ?case by auto
qed simp_all

lemma assign_noop:
  "a \<notin> addrs v \<Longrightarrow> assign a k w v = v"
  "a \<notin> addrs_fields fs \<Longrightarrow> assign_fields a k w fs = fs"
  by (induction a k w v and a k w fs rule: assign_assign_fields.induct) auto

lemma addrs_field: "addrs (field fs k) \<subseteq> addrs_fields fs"
proof (induction fs)
  case Nil
  then show ?case by (simp add: field_def)
next
  case (Cons p fs)
  then show ?case by (cases p) (auto simp: field_def split: option.splits)
qed

text \<open>
  C5 (deep-copy reads), as amended. For a registered slice whose objects were allocated
  before the call, \<open>getAll\<close> of both variants and \<open>get\<close> of the Signal-based variant
  return a value that is deep-equal to the stored one and made of fresh objects only:
  an assignment through any object of the returned value leaves the slice state
  unchanged. The reads themselves do not change the state.
\<close>

theorem deep_copy_reads:
  assumes h: "map_of (slices s) n = Some h"
    and ok: "addrs_fields (state h) \<subseteq> {..< heap s}"
  shows "(\<exists>r a'. getAll h (heap s) = (r, a')
            \<and> shape r = VObj 0 (shape_fields (state h))
            \<and> (\<forall>a \<in> addrs r. \<forall>k w. assign_fields a k w (state h) = state h))
       \<and> (\<exists>r s'. getAll_sig n s = (Return r, s')
            \<and> shape r = VObj 0 (shape_fields (state h))
            \<and> state_of s' n = state h
            \<and> (\<forall>a \<in> addrs r. \<forall>k w. assign_fields a k w (state_of s' n) = state_of s' n))
       \<and> (\<exists>r s'. get_sig n key s = (Return r, s')
            \<and> shape r = shape (field (state h) key)
            \<and> state_of s' n = state h
            \<and> (\<forall>a \<in> addrs r. \<forall>k w. assign_fields a k w (state_of s' n) = state_of s' n))"
proof -
  obtain fs a' where c: "clone_fields (Suc (heap s)) (state h) = (fs, a')"
    by (cases "clone_fields (Suc (heap s)) (state h)")
  from clone_fresh(2)[of "Suc (heap s)" "state h"] c
  have fr: "addrs_fields fs \<subseteq> {Suc (heap s) ..< a'}" by simp
  from clone_shape(2)[of "Suc (heap s)" "state h"] c
  have sh: "shape_fields fs = shape_fields (state h)" by simp
  have new: "\<forall>a \<in> addrs (VObj (heap s) fs). a \<notin> addrs_fields (state h)"
    using fr ok by fastforce
  have all: "\<forall>a \<in> addrs (VObj (heap s) fs). \<forall>k w. assign_fields a k w (state h) = state h"
    using new by (auto intro: assign_noop(2))
  have g1: "getAll h (heap s) = (VObj (heap s) fs, a')"
    using c by (simp add: getAll_def cloneState_def)
  have g2: "getAll_sig n s = (Return (VObj (heap s) fs), s\<lparr>heap := a'\<rparr>)"
    using c h by (simp add: getAll_sig_def cloneState_def)
  have st: "state_of (s\<lparr>heap := a'\<rparr>) n = state h" using h by (simp add: state_of_def)
  have p1: "\<exists>r a'. getAll h (heap s) = (r, a')
            \<and> shape r = VObj 0 (shape_fields (state h))
            \<and> (\<forall>a \<in> addrs r. \<forall>k w. assign_fields a k w (state h) = state h)"
    using g1 sh all by simp
  have p2: "\<exists>r s'. getAll_sig n s = (Return r, s')
            \<and> shape r = VObj 0 (shape_fields (state h))
            \<and> state_of s' n = state h
            \<and> (\<forall>a \<in> addrs r. \<forall>k w. assign_fields a k w (state_of s' n) = state_of s' n)"
    using g2 sh all st by simp
  have p3: "\<exists>r s'. get_sig n key s = (Return r, s')
            \<and> shape r = shape (field (state h) key)
            \<and> state_of s' n = state h
            \<and> (\<forall>a \<in> addrs r. \<forall>k w. assign_fields a k w (state_of s' n) = state_of s' n)"
  proof (cases "field (state h) key")
    case (VObj b gs)
    obtain c2 a2 where c2: "structuredClone (heap s) (VObj b gs) = (c2, a2)"
      by (cases "structuredClone (heap s) (VObj b gs)")
    from clone_fresh(1)[of "heap s" "VObj b gs"] c2 have "addrs c2 \<subseteq> {heap s ..< a2}" by simp
    with ok have "\<forall>a \<in> addrs c2. a \<notin> addrs_fields (state h)" by fastforce
    then have n2: "\<forall>a \<in> addrs c2. \<forall>k w. assign_fields a k w (state h) = state h"
      by (auto intro: assign_noop(2))
    from clone_shape(1)[of "heap s" "VObj b gs"] c2 have s2: "shape c2 = shape (VObj b gs)" by simp
    have "get_sig n key s = (Return c2, s\<lparr>heap := a2\<rparr>)"
      using h VObj c2 by (simp add: get_sig_def)
    moreover have "state_of (s\<lparr>heap := a2\<rparr>) n = state h" using h by (simp add: state_of_def)
    ultimately show ?thesis using n2 s2 VObj by simp
  qed (use h in \<open>auto simp: get_sig_def state_of_def\<close>)
  from p1 p2 p3 show ?thesis by blast
qed

theorem deep_copy_reads_witness:
  "map_of (slices nestedStore) ''nested'' = Some (sliceOf [(''obj'', VObj 5 [(''a'', VNum 1)])] [])
   \<and> addrs_fields [(''obj'', VObj 5 [(''a'', VNum 1)])] \<subseteq> {..< heap nestedStore}
   \<and> getAll_sig ''nested'' nestedStore
       = (Return (VObj 100 [(''obj'', VObj 101 [(''a'', VNum 1)])]), nestedStore\<lparr>heap := 102\<rparr>)
   \<and> get_sig ''nested'' ''obj'' nestedStore
       = (Return (VObj 100 [(''a'', VNum 1)]), nestedStore\<lparr>heap := 101\<rparr>)
   \<and> getAll (sliceOf [(''obj'', VObj 5 [(''a'', VNum 1)])] []) 100
       = (VObj 100 [(''obj'', VObj 101 [(''a'', VNum 1)])], 102)
   \<and> assign_fields 101 ''a'' (VNum 999) [(''obj'', VObj 5 [(''a'', VNum 1)])]
       = [(''obj'', VObj 5 [(''a'', VNum 1)])]"
proof -
  let ?h = "sliceOf [(''obj'', VObj 5 [(''a'', VNum 1)])] []"
  have h: "map_of (slices nestedStore) ''nested'' = Some ?h" by (simp add: nestedStore_def)
  have ok: "addrs_fields (state ?h) \<subseteq> {..< heap nestedStore}"
    by (simp add: sliceOf_def nestedStore_def)
  have g1: "getAll ?h 100 = (VObj 100 [(''obj'', VObj 101 [(''a'', VNum 1)])], 102)"
    by (simp add: getAll_def cloneState_def sliceOf_def)
  have g2: "getAll_sig ''nested'' nestedStore
       = (Return (VObj 100 [(''obj'', VObj 101 [(''a'', VNum 1)])]), nestedStore\<lparr>heap := 102\<rparr>)"
    by (simp add: getAll_sig_def cloneState_def sliceOf_def nestedStore_def)
  have g3: "get_sig ''nested'' ''obj'' nestedStore
       = (Return (VObj 100 [(''a'', VNum 1)]), nestedStore\<lparr>heap := 101\<rparr>)"
    by (simp add: get_sig_def field_def sliceOf_def nestedStore_def)
  from deep_copy_reads[OF h ok, of "''obj''"] g1
  have "\<forall>a \<in> addrs (VObj 100 [(''obj'', VObj 101 [(''a'', VNum 1)])]).
          \<forall>k w. assign_fields a k w (state ?h) = state ?h"
    by (simp add: nestedStore_def)
  then have "assign_fields 101 ''a'' (VNum 999) (state ?h) = state ?h" by simp
  with h ok g1 g2 g3 show ?thesis by (simp add: sliceOf_def)
qed

text \<open>
  The claim C5 as written fails for \<open>get\<close> of the class-based handle, which returns
  \<open>this._state[key]\<close>: the caller holds the stored object, and an assignment through it
  changes the slice state.
\<close>

theorem deep_copy_reads_counterexample:
  "get (sliceOf [(''obj'', VObj 5 [(''a'', VNum 1)])] []) ''obj'' = VObj 5 [(''a'', VNum 1)]
   \<and> state_of nestedStore ''nested'' = [(''obj'', VObj 5 [(''a'', VNum 1)])]
   \<and> 5 \<in> addrs (get (sliceOf [(''obj'', VObj 5 [(''a'', VNum 1)])] []) ''obj'')
   \<and> assign_fields 5 ''a'' (VNum 999) (state_of nestedStore ''nested'')
       = [(''obj'', VObj 5 [(''a'', VNum 999)])]"
  by (simp add: get_def sliceOf_def field_def nestedStore_def state_of_def)

section \<open>Immediate notification\<close>

lemma callListeners_None:
  "callListeners ls p ev = (None, ev') \<Longrightarrow> ev' = ev @ invokes ls p"
  using callListeners_Return[of ls p ev ev'] by (simp add: invokes_def)

lemma callListeners_quiet:
  "quiet ls \<Longrightarrow> callListeners ls p ev = (None, ev @ invokes ls p)"
  by (induction ls arbitrary: ev) (auto simp: quiet_def invokes_def)

lemma emitSignal_snd: "snd (emitSignal ls p fe ev) = ev @ invokes ls p"
  by (induction ls arbitrary: fe ev) (auto simp: invokes_def)

lemma emitSignal_quiet: "quiet ls \<Longrightarrow> emitSignal ls p None ev = (None, ev @ invokes ls p)"
  by (induction ls arbitrary: ev) (auto simp: quiet_def invokes_def)

lemma field_update_same [simp]: "field (AList.update k v fs) k = v"
  by (simp add: field_def update_conv')

lemma field_update_other [simp]: "k' \<noteq> k \<Longrightarrow> field (AList.update k v fs) k' = field fs k'"
  by (simp add: field_def update_conv')

lemma passes_class: "passes mws st inc \<Longrightarrow> runMiddleware mws st inc = Inr (Some inc)"
  by (induction mws) (auto simp: passes_def)

lemma passes_sig: "passes mws st inc \<Longrightarrow> runMiddleware_sig n k mws st inc = Inr (Some inc)"
  by (induction mws arbitrary: k) (auto simp: passes_def)

lemma flushField_None:
  "flushField n h key v prev ev = (None, ev') \<Longrightarrow>
   ev' = ev @ Fire (FieldEmitter n key) (FieldChange v prev) # invokes (listenersOf h key) (FieldChange v prev)"
  by (auto simp: flushField_def listenersOf_def invokes_def Let_def
        dest!: callListeners_None split: option.splits)

lemma flushSlice_None:
  "flushSlice n h ev = (None, ev') \<Longrightarrow>
   ev' = ev @ Fire (SliceEmitter n) (SliceState (state h)) # invokes (sliceListeners h) (SliceState (state h))"
  by (auto simp: flushSlice_def dest!: callListeners_None)

lemma notifyStoreListeners_None:
  "notifyStoreListeners s = (None, s') \<Longrightarrow>
   s' = s\<lparr>heap := snd (cloneSlices (heap s) (slices s)),
          events := events s @ Fire StoreEmitter (StoreState (fst (cloneSlices (heap s) (slices s))))
                      # invokes (storeListeners s) (StoreState (fst (cloneSlices (heap s) (slices s))))\<rparr>"
  by (auto simp: notifyStoreListeners_def getState_def dest!: callListeners_None split: prod.splits)

lemma set_field_immediate:
  assumes h: "map_of (slices s) n = Some h"
    and na: "\<not> active (batch_ctx s)"
    and pass: "passes (middleware h) (state h) [(key, v)]"
    and diff: "\<not> object_is (get h key) v"
    and ret: "set_field n key v s = (Return b, s')"
  shows "b \<and> slices s' = AList.update n (h\<lparr>state := AList.update key v (state h)\<rparr>) (slices s)
       \<and> batch_ctx s' = batch_ctx s
       \<and> events s' = events s
            @ Fire (FieldEmitter n key) (FieldChange v (get h key))
              # invokes (listenersOf h key) (FieldChange v (get h key))
            @ Fire (SliceEmitter n) (SliceState (AList.update key v (state h)))
              # invokes (sliceListeners h) (SliceState (AList.update key v (state h)))
            @ Fire StoreEmitter (StoreState (fst (cloneSlices (heap s) (slices s'))))
              # invokes (storeListeners s) (StoreState (fst (cloneSlices (heap s) (slices s'))))"
proof -
  let ?prev = "field (state h) key"
  let ?h' = "h\<lparr>state := AList.update key v (state h)\<rparr>"
  let ?s2 = "s\<lparr>slices := AList.update n ?h' (slices s)\<rparr>"
  have mw: "runMiddleware (middleware h) (state h) [(key, v)] = Inr (Some [(key, v)])"
    using passes_class[OF pass] .
  have fv: "field [(key, v)] key = v" by (simp add: field_def)
  have ts: "takeSnapshot n (state h) s = s" using na by (simp add: takeSnapshot_def)
  from diff have d: "\<not> object_is ?prev v" by (simp add: get_def)
  have unfold: "set_field n key v s =
      (case flushField n ?h' key v ?prev (events s) of
         (Some e, ev) \<Rightarrow> (Raise e, ?s2\<lparr>events := ev\<rparr>)
       | (None, ev) \<Rightarrow>
           (case flushSlice n ?h' ev of
              (Some e, ev') \<Rightarrow> (Raise e, ?s2\<lparr>events := ev'\<rparr>)
            | (None, ev') \<Rightarrow>
                (case notifyStoreListeners (?s2\<lparr>events := ev'\<rparr>) of
                   (Some e, s3) \<Rightarrow> (Raise e, s3)
                 | (None, s3) \<Rightarrow> (Return True, s3))))"
    using h na d mw fv ts by (simp add: set_field_def Let_def)
  from ret[unfolded unfold] obtain ev ev' where
    f1: "flushField n ?h' key v ?prev (events s) = (None, ev)" and
    f2: "flushSlice n ?h' ev = (None, ev')" and
    f3: "notifyStoreListeners (?s2\<lparr>events := ev'\<rparr>) = (None, s')" and
    b: "b"
    by (auto split: prod.splits option.splits)
  note e1 = flushField_None[OF f1] and e2 = flushSlice_None[OF f2]
    and e3 = notifyStoreListeners_None[OF f3]
  have l: "listenersOf ?h' key = listenersOf h key" by (simp add: listenersOf_def)
  show ?thesis using b e1 e2 e3 l by (simp add: get_def)
qed

lemma set_field_immediate_returns:
  assumes h: "map_of (slices s) n = Some h"
    and na: "\<not> active (batch_ctx s)"
    and pass: "passes (middleware h) (state h) [(key, v)]"
    and diff: "\<not> object_is (get h key) v"
    and q: "quiet (listenersOf h key)" "quiet (sliceListeners h)" "quiet (storeListeners s)"
  shows "\<exists>s'. set_field n key v s = (Return True, s')"
proof -
  have mw: "runMiddleware (middleware h) (state h) [(key, v)] = Inr (Some [(key, v)])"
    using passes_class[OF pass] .
  have fv: "field [(key, v)] key = v" by (simp add: field_def)
  have ts: "takeSnapshot n (state h) s = s" using na by (simp add: takeSnapshot_def)
  from diff have d: "\<not> object_is (field (state h) key) v" by (simp add: get_def)
  have q1: "\<And>ls. map_of (fieldListeners h) key = Some ls \<Longrightarrow> quiet ls"
    using q(1) by (simp add: listenersOf_def)
  show ?thesis
    using h na d mw fv ts q(2,3) q1
    by (auto simp: set_field_def Let_def flushField_def flushSlice_def notifyStoreListeners_def
          getState_def callListeners_quiet split: option.splits prod.splits)
qed


lemma emitField_None:
  "emitField n r key v prev ev = (None, ev') \<Longrightarrow>
   ev' = ev @ (if map_of (fieldListeners r) key = None then []
               else Fire (FieldEmitter n key) (FieldChange v prev)
                      # invokes (listenersOf r key) (FieldChange v prev))"
  using emitSignal_snd[of "listenersOf r key" "FieldChange v prev" None
          "ev @ [Fire (FieldEmitter n key) (FieldChange v prev)]"]
  by (auto simp: emitField_def listenersOf_def split: option.splits)

lemma emitSlice_None:
  "emitSlice n r ev = (None, ev') \<Longrightarrow>
   ev' = ev @ Fire (SliceEmitter n) (SliceState (state r)) # invokes (sliceListeners r) (SliceState (state r))"
  using emitSignal_snd[of "sliceListeners r" "SliceState (state r)" None
          "ev @ [Fire (SliceEmitter n) (SliceState (state r))]"]
  by (auto simp: emitSlice_def)

lemma emitOnChange_None:
  "emitOnChange s = (None, s') \<Longrightarrow>
   s' = s\<lparr>events := events s @ Fire StoreEmitter (StoreState (getFullState s))
                      # invokes (storeListeners s) (StoreState (getFullState s))\<rparr>"
  using emitSignal_snd[of "storeListeners s" "StoreState (getFullState s)" None
          "events s @ [Fire StoreEmitter (StoreState (getFullState s))]"]
  by (auto simp: emitOnChange_def split: prod.splits)

lemma clone_top_addr:
  "structuredClone a v = (v', a') \<Longrightarrow> addrs v \<subseteq> {..< a} \<Longrightarrow> \<not> object_is w v \<Longrightarrow>
   addrs w \<subseteq> {..< a} \<Longrightarrow> \<not> object_is w v'"
  by (cases v; cases w) (auto simp: object_is_def split: prod.splits)

lemma clone_object_differs:
  "structuredClone a v = (v', a') \<Longrightarrow> addrs w \<subseteq> {..< a} \<Longrightarrow> \<not> object_is w v \<Longrightarrow>
   \<not> object_is w v'"
  by (cases v; cases w) (auto simp: object_is_def split: prod.splits)

lemma set_sig_immediate:
  assumes h: "map_of (slices s) n = Some h"
    and na: "\<not> active (batch_ctx s)"
    and pass: "passes (middleware h) (state h) [(key, v)]"
    and ok: "addrs_fields (state h) \<subseteq> {..< heap s}"
    and diff: "\<not> object_is (field (state h) key) v"
    and ret: "set_sig n key v s = (Return (), s')"
  shows "shape (fst (structuredClone (Suc (heap s)) v)) = shape v
       \<and> slices s' = AList.update n
            (h\<lparr>state := AList.update key (fst (structuredClone (Suc (heap s)) v)) (state h)\<rparr>) (slices s)
       \<and> batch_ctx s' = batch_ctx s
       \<and> events s' = events s
            @ (if map_of (fieldListeners h) key = None then []
               else Fire (FieldEmitter n key)
                      (FieldChange (fst (structuredClone (Suc (heap s)) v)) (field (state h) key))
                    # invokes (listenersOf h key)
                        (FieldChange (fst (structuredClone (Suc (heap s)) v)) (field (state h) key)))
            @ Fire (SliceEmitter n)
                (SliceState (AList.update key (fst (structuredClone (Suc (heap s)) v)) (state h)))
              # invokes (sliceListeners h)
                  (SliceState (AList.update key (fst (structuredClone (Suc (heap s)) v)) (state h)))
            @ Fire StoreEmitter (StoreState (getFullState s'))
              # invokes (storeListeners s) (StoreState (getFullState s'))"
proof -
  obtain v' a1 where c: "structuredClone (Suc (heap s)) v = (v', a1)"
    by (cases "structuredClone (Suc (heap s)) v")
  let ?prev = "field (state h) key"
  let ?st = "AList.update key v' (state h)"
  let ?r' = "h\<lparr>state := ?st\<rparr>"
  let ?s2 = "s\<lparr>heap := a1, slices := AList.update n ?r' (slices s)\<rparr>"
  have mw: "runMiddleware_sig n 0 (middleware h) (state h) [(key, v)] = Inr (Some [(key, v)])"
    using passes_sig[OF pass] .
  have ts: "takeSnapshot n (state h) s = s" using na by (simp add: takeSnapshot_def)
  have cl: "cloneState (heap s) [(key, v)] = ([(key, v')], a1)"
    using c by (simp add: cloneState_def)
  have "addrs ?prev \<subseteq> {..< Suc (heap s)}" using addrs_field[of "state h" key] ok by fastforce
  from clone_object_differs[OF c this diff] have d: "\<not> object_is ?prev v'" .
  have dl: "diffLoop [key] [(key, v')] (state h) [] = (?st, [key])"
    using d by (simp add: field_def)
  have unfold: "set_sig n key v s =
      (case emitKeys n ?r' [key] (state h) (events ?s2) of
         (Some e, ev) \<Rightarrow> (Raise e, ?s2\<lparr>events := ev\<rparr>)
       | (None, ev) \<Rightarrow>
           (case emitSlice n ?r' ev of
              (Some e, ev') \<Rightarrow> (Raise e, ?s2\<lparr>events := ev'\<rparr>)
            | (None, ev') \<Rightarrow>
                (case emitOnChange (?s2\<lparr>events := ev'\<rparr>) of
                   (Some e, s3) \<Rightarrow> (Raise e, s3)
                 | (None, s3) \<Rightarrow> (Return (), s3))))"
    using h na mw ts cl dl by (simp add: set_sig_def updateSlice_def Let_def)
  from ret[unfolded unfold] obtain ev ev' where
    f1: "emitKeys n ?r' [key] (state h) (events s) = (None, ev)" and
    f2: "emitSlice n ?r' ev = (None, ev')" and
    f3: "emitOnChange (?s2\<lparr>events := ev'\<rparr>) = (None, s')"
    by (auto split: prod.splits option.splits)
  from f1 have f1': "emitField n ?r' key v' ?prev (events s) = (None, ev)"
    by (auto split: prod.splits option.splits)
  note e1 = emitField_None[OF f1'] and e2 = emitSlice_None[OF f2] and e3 = emitOnChange_None[OF f3]
  have l: "listenersOf ?r' key = listenersOf h key" by (simp add: listenersOf_def)
  have sh: "shape v' = shape v" using clone_shape(1)[of "Suc (heap s)" v] c by simp
  show ?thesis unfolding c fst_conv using sh e1 e2 e3 l by (simp add: getFullState_def)
qed


lemma set_sig_immediate_returns:
  assumes h: "map_of (slices s) n = Some h"
    and na: "\<not> active (batch_ctx s)"
    and pass: "passes (middleware h) (state h) [(key, v)]"
    and q: "quiet (listenersOf h key)" "quiet (sliceListeners h)" "quiet (storeListeners s)"
  shows "\<exists>s'. set_sig n key v s = (Return (), s')"
proof -
  have mw: "runMiddleware_sig n 0 (middleware h) (state h) [(key, v)] = Inr (Some [(key, v)])"
    using passes_sig[OF pass] .
  have ts: "takeSnapshot n (state h) s = s" using na by (simp add: takeSnapshot_def)
  have q1: "\<And>ls. map_of (fieldListeners h) key = Some ls \<Longrightarrow> quiet ls"
    using q(1) by (simp add: listenersOf_def)
  show ?thesis
    using h na mw ts q(2,3) q1
    by (auto simp: set_sig_def updateSlice_def Let_def cloneState_def emitField_def emitSlice_def
          emitOnChange_def emitSignal_quiet split: option.splits prod.splits)
qed

lemma get_sig_shape:
  assumes "map_of (slices s) n = Some r"
  shows "\<exists>x s'. get_sig n key s = (Return x, s') \<and> shape x = shape (field (state r) key)"
proof (cases "field (state r) key")
  case (VObj b gs)
  obtain c a where c: "structuredClone (heap s) (VObj b gs) = (c, a)"
    by (cases "structuredClone (heap s) (VObj b gs)")
  from clone_shape(1)[of "heap s" "VObj b gs"] c have "shape c = shape (VObj b gs)" by simp
  with assms VObj c show ?thesis by (simp add: get_sig_def)
qed (use assms in \<open>auto simp: get_sig_def\<close>)

text \<open>
  C2 (non-batched \<open>set\<close>), as amended. No batch is active, every middleware passes the
  partial through, the value is not \<open>Object.is\<close>-identical to the current one, and the
  listeners only return or raise: none of them calls back into the store while it runs.

  Class-based \<open>set\<close>: whenever the call returns it returns \<open>true\<close>, \<open>get(key)\<close> is the
  value itself, and the trace grew by exactly: the field emitter with \<open>(v, previous)\<close> and
  its listeners, then the slice emitter with the full new state and its listeners, then
  the store emitter with a clone of all slices and its listeners. The call returns when
  no listener raises (an error of a listener propagates and ends the notifications).

  Signal-based \<open>set\<close> (for a state whose objects were allocated before the call): the
  stored value is a structured clone of \<open>v\<close>, deep-equal to it, \<open>get(key)\<close> returns a value
  deep-equal to \<open>v\<close>, and the trace grew by the same three notifications in the same
  order, the field one only when the field has a \<open>Signal\<close>, with the stored clone as value.
\<close>

theorem set_postcondition:
  assumes h: "map_of (slices s) n = Some h"
    and na: "\<not> active (batch_ctx s)"
    and pass: "passes (middleware h) (state h) [(key, v)]"
    and diff: "\<not> object_is (get h key) v"
  shows "(\<forall>b s'. set_field n key v s = (Return b, s') \<longrightarrow>
            b \<and> (\<exists>h'. map_of (slices s') n = Some h' \<and> get h' key = v
                        \<and> state h' = AList.update key v (state h))
            \<and> events s' = events s
                 @ Fire (FieldEmitter n key) (FieldChange v (get h key))
                   # invokes (listenersOf h key) (FieldChange v (get h key))
                 @ Fire (SliceEmitter n) (SliceState (AList.update key v (state h)))
                   # invokes (sliceListeners h) (SliceState (AList.update key v (state h)))
                 @ Fire StoreEmitter (StoreState (fst (cloneSlices (heap s) (slices s'))))
                   # invokes (storeListeners s) (StoreState (fst (cloneSlices (heap s) (slices s')))))
       \<and> (quiet (listenersOf h key) \<and> quiet (sliceListeners h) \<and> quiet (storeListeners s) \<longrightarrow>
            (\<exists>s'. set_field n key v s = (Return True, s')) \<and>
            (\<exists>s'. set_sig n key v s = (Return (), s')))
       \<and> (addrs_fields (state h) \<subseteq> {..< heap s} \<longrightarrow>
           (\<forall>s'. set_sig n key v s = (Return (), s') \<longrightarrow>
              (\<exists>v' h'. v' = fst (structuredClone (Suc (heap s)) v) \<and> shape v' = shape v
                 \<and> map_of (slices s') n = Some h' \<and> state h' = AList.update key v' (state h)
                 \<and> (\<exists>x s''. get_sig n key s' = (Return x, s'') \<and> shape x = shape v)
                 \<and> events s' = events s
                      @ (if map_of (fieldListeners h) key = None then []
                         else Fire (FieldEmitter n key) (FieldChange v' (get h key))
                              # invokes (listenersOf h key) (FieldChange v' (get h key)))
                      @ Fire (SliceEmitter n) (SliceState (AList.update key v' (state h)))
                        # invokes (sliceListeners h) (SliceState (AList.update key v' (state h)))
                      @ Fire StoreEmitter (StoreState (getFullState s'))
                        # invokes (storeListeners s) (StoreState (getFullState s')))))"
proof (intro conjI allI impI)
  fix b s'
  assume ret: "set_field n key v s = (Return b, s')"
  note p = set_field_immediate[OF h na pass diff ret]
  from p show "b" by simp
  have m: "map_of (slices s') n = Some (h\<lparr>state := AList.update key v (state h)\<rparr>)"
    using p by (simp add: update_conv')
  show "\<exists>h'. map_of (slices s') n = Some h' \<and> get h' key = v
                        \<and> state h' = AList.update key v (state h)"
    using m by (simp add: get_def)
  from p show "events s' = events s
                 @ Fire (FieldEmitter n key) (FieldChange v (get h key))
                   # invokes (listenersOf h key) (FieldChange v (get h key))
                 @ Fire (SliceEmitter n) (SliceState (AList.update key v (state h)))
                   # invokes (sliceListeners h) (SliceState (AList.update key v (state h)))
                 @ Fire StoreEmitter (StoreState (fst (cloneSlices (heap s) (slices s'))))
                   # invokes (storeListeners s) (StoreState (fst (cloneSlices (heap s) (slices s'))))"
    by simp
next
  assume q: "quiet (listenersOf h key) \<and> quiet (sliceListeners h) \<and> quiet (storeListeners s)"
  then show "\<exists>s'. set_field n key v s = (Return True, s')"
    using set_field_immediate_returns[OF h na pass diff] by simp
  from q show "\<exists>s'. set_sig n key v s = (Return (), s')"
    using set_sig_immediate_returns[OF h na pass] by simp
next
  fix s'
  assume ok: "addrs_fields (state h) \<subseteq> {..< heap s}"
    and ret: "set_sig n key v s = (Return (), s')"
  from diff have d: "\<not> object_is (field (state h) key) v" by (simp add: get_def)
  note p = set_sig_immediate[OF h na pass ok d ret]
  let ?v' = "fst (structuredClone (Suc (heap s)) v)"
  let ?h' = "h\<lparr>state := AList.update key ?v' (state h)\<rparr>"
  have m: "map_of (slices s') n = Some ?h'" using p by (simp add: update_conv')
  from get_sig_shape[OF m, of key] p
  have g: "\<exists>x s''. get_sig n key s' = (Return x, s'') \<and> shape x = shape v" by simp
  show "\<exists>v' h'. v' = fst (structuredClone (Suc (heap s)) v) \<and> shape v' = shape v
                 \<and> map_of (slices s') n = Some h' \<and> state h' = AList.update key v' (state h)
                 \<and> (\<exists>x s''. get_sig n key s' = (Return x, s'') \<and> shape x = shape v)
                 \<and> events s' = events s
                      @ (if map_of (fieldListeners h) key = None then []
                         else Fire (FieldEmitter n key) (FieldChange v' (get h key))
                              # invokes (listenersOf h key) (FieldChange v' (get h key)))
                      @ Fire (SliceEmitter n) (SliceState (AList.update key v' (state h)))
                        # invokes (sliceListeners h) (SliceState (AList.update key v' (state h)))
                      @ Fire StoreEmitter (StoreState (getFullState s'))
                        # invokes (storeListeners s) (StoreState (getFullState s'))"
    using p m g by (intro exI[of _ ?v'] exI[of _ ?h']) (simp add: get_def)
qed

theorem set_postcondition_witness:
  "map_of (slices (walletStore [passThrough])) ''wallet'' \<noteq> None
   \<and> \<not> active (batch_ctx (walletStore [passThrough]))
   \<and> passes [passThrough] walletDefaults [(''bet'', VNum 10)]
   \<and> \<not> object_is (field walletDefaults ''bet'') (VNum 10)
   \<and> fst (set_field ''wallet'' ''bet'' (VNum 10) (walletStore [passThrough])) = Return True
   \<and> (\<exists>h'. map_of (slices (snd (set_field ''wallet'' ''bet'' (VNum 10) (walletStore [passThrough]))))
               ''wallet'' = Some h' \<and> get h' ''bet'' = VNum 10)
   \<and> events (snd (set_field ''wallet'' ''bet'' (VNum 10) (walletStore [passThrough])))
       = [Fire (FieldEmitter ''wallet'' ''bet'') (FieldChange (VNum 10) (VNum 1)),
          Invoke 1 (FieldChange (VNum 10) (VNum 1)),
          Fire (SliceEmitter ''wallet'')
            (SliceState [(''balance'', VNum 1000), (''bet'', VNum 10), (''currency'', VStr ''USD'')]),
          Invoke 2
            (SliceState [(''balance'', VNum 1000), (''bet'', VNum 10), (''currency'', VStr ''USD'')]),
          Fire StoreEmitter
            (StoreState
              [(''wallet'', [(''balance'', VNum 1000), (''bet'', VNum 10), (''currency'', VStr ''USD'')]),
               (''spin'', [(''remaining'', VNum 5), (''total'', VNum 10), (''multiplier'', VNum 1)])]),
          Invoke 3
            (StoreState
              [(''wallet'', [(''balance'', VNum 1000), (''bet'', VNum 10), (''currency'', VStr ''USD'')]),
               (''spin'', [(''remaining'', VNum 5), (''total'', VNum 10), (''multiplier'', VNum 1)])])]"
proof -
  let ?s = "walletStore [passThrough]"
  let ?h = "(sliceOf walletDefaults [passThrough])
            \<lparr>fieldListeners := [(''bet'', [observer 1])], sliceListeners := [observer 2]\<rparr>"
  have h: "map_of (slices ?s) ''wallet'' = Some ?h" by (simp add: walletStore_def)
  have na: "\<not> active (batch_ctx ?s)" by (simp add: example_defs)
  have pass: "passes (middleware ?h) (state ?h) [(''bet'', VNum 10)]"
    by (simp add: passes_def example_defs)
  have diff: "\<not> object_is (get ?h ''bet'') (VNum 10)"
    by (simp add: example_defs store_defs)
  have r: "fst (set_field ''wallet'' ''bet'' (VNum 10) ?s) = Return True"
    by (simp add: example_defs store_defs)
  have ev: "events (snd (set_field ''wallet'' ''bet'' (VNum 10) ?s))
       = [Fire (FieldEmitter ''wallet'' ''bet'') (FieldChange (VNum 10) (VNum 1)),
          Invoke 1 (FieldChange (VNum 10) (VNum 1)),
          Fire (SliceEmitter ''wallet'')
            (SliceState [(''balance'', VNum 1000), (''bet'', VNum 10), (''currency'', VStr ''USD'')]),
          Invoke 2
            (SliceState [(''balance'', VNum 1000), (''bet'', VNum 10), (''currency'', VStr ''USD'')]),
          Fire StoreEmitter
            (StoreState
              [(''wallet'', [(''balance'', VNum 1000), (''bet'', VNum 10), (''currency'', VStr ''USD'')]),
               (''spin'', [(''remaining'', VNum 5), (''total'', VNum 10), (''multiplier'', VNum 1)])]),
          Invoke 3
            (StoreState
              [(''wallet'', [(''balance'', VNum 1000), (''bet'', VNum 10), (''currency'', VStr ''USD'')]),
               (''spin'', [(''remaining'', VNum 5), (''total'', VNum 10), (''multiplier'', VNum 1)])])]"
    by (simp add: example_defs store_defs)
  from r have ret: "set_field ''wallet'' ''bet'' (VNum 10) ?s
      = (Return True, snd (set_field ''wallet'' ''bet'' (VNum 10) ?s))"
    by (metis prod.collapse)
  from set_postcondition[OF h na pass diff] ret
  have g: "\<exists>h'. map_of (slices (snd (set_field ''wallet'' ''bet'' (VNum 10) ?s))) ''wallet'' = Some h'
             \<and> get h' ''bet'' = VNum 10"
    by blast
  have p: "passes [passThrough] walletDefaults [(''bet'', VNum 10)]"
    using pass by (simp add: sliceOf_def)
  have d: "\<not> object_is (field walletDefaults ''bet'') (VNum 10)"
    using diff by (simp add: sliceOf_def get_def)
  from h na p d r g ev show ?thesis by simp
qed

text \<open>
  The claim C2 as written fails for the Signal-based \<open>set\<close> with an object value: the
  store keeps a clone and \<open>get\<close> returns a clone of that, so \<open>get(k)\<close> is not the object
  that was passed in (it is deep-equal to it).
\<close>

theorem set_postcondition_counterexample:
  "\<not> active (batch_ctx nestedStore)
   \<and> \<not> object_is (field (state_of nestedStore ''nested'') ''obj'') (VObj 7 [(''a'', VNum 2)])
   \<and> fst (set_sig ''nested'' ''obj'' (VObj 7 [(''a'', VNum 2)]) nestedStore) = Return ()
   \<and> fst (get_sig ''nested'' ''obj''
            (snd (set_sig ''nested'' ''obj'' (VObj 7 [(''a'', VNum 2)]) nestedStore)))
       = Return (VObj 102 [(''a'', VNum 2)])
   \<and> \<not> object_is (VObj 102 [(''a'', VNum 2)]) (VObj 7 [(''a'', VNum 2)])"
  by (simp add: example_defs store_defs state_of_def set_sig_def updateSlice_def get_sig_def
        emitField_def emitSlice_def emitOnChange_def getFullState_def)

section \<open>Batches\<close>

lemma same_handle_simps [simp]:
  "same_handle h h" "same_handle h0 (h\<lparr>state := st\<rparr>) = same_handle h0 h"
  by (simp_all add: same_handle_def)

lemma object_is_refl [simp]: "object_is x x"
  by (cases x) (auto simp: object_is_def)

lemma object_is_sym: "object_is x y \<Longrightarrow> object_is y x"
  by (cases x; cases y) (auto simp: object_is_def)

lemma object_is_trans: "object_is x y \<Longrightarrow> object_is y z \<Longrightarrow> object_is x z"
  by (cases x; cases y; cases z) (auto simp: object_is_def)

lemma grows_refl [simp]: "grows s s"
  by (simp add: grows_def)

lemma grows_trans: "grows s s1 \<Longrightarrow> grows s1 s2 \<Longrightarrow> grows s s2"
  by (auto simp: grows_def)

lemma pendingOf_simps [simp]:
  "pendingOf n (b\<lparr>snapshots := x\<rparr>) = pendingOf n b"
  "pendingOf n (b\<lparr>dirtySlices := y\<rparr>) = pendingOf n b"
  "pendingOf n (b\<lparr>active := z\<rparr>) = pendingOf n b"
  "pendingOf n (b\<lparr>pendingFields := AList.update n flds pf\<rparr>) = flds"
  "m \<noteq> n \<Longrightarrow> pendingOf m (b\<lparr>pendingFields := AList.update n flds (pendingFields b)\<rparr>) = pendingOf m b"
  by (simp_all add: pendingOf_def update_conv')

lemma in_batch_begin: "\<not> active (batch_ctx s) \<Longrightarrow> in_batch s (begin_batch s)"
  by (auto simp: in_batch_def begin_batch_def emptyBatch_def snapshot_ok_def pending_ok_def
        pendingOf_def)

lemma set_set_add [simp]: "set (set_add x xs) = insert x (set xs)"
  by (auto simp: set_add_def)

lemma distinct_set_add [simp]: "distinct xs \<Longrightarrow> distinct (set_add x xs)"
  by (auto simp: set_add_def)

lemma set_foldl_set_add: "set (foldl (\<lambda>acc k. set_add k acc) acc ks) = set acc \<union> set ks"
  by (induction ks arbitrary: acc) auto

lemma distinct_foldl_set_add:
  "distinct acc \<Longrightarrow> distinct (foldl (\<lambda>acc k. set_add k acc) acc ks)"
  by (induction ks arbitrary: acc) auto

lemma set_allKeys: "set (allKeys a b) = fst ` set a \<union> fst ` set b"
  by (simp add: allKeys_def set_foldl_set_add)

lemma distinct_allKeys: "distinct (allKeys a b)"
  by (simp add: allKeys_def distinct_foldl_set_add)

lemma field_absent: "key \<notin> fst ` set fs \<Longrightarrow> field fs key = VUndef"
proof -
  assume "key \<notin> fst ` set fs"
  then have "map_of fs key = None" by (simp add: map_of_eq_None_iff)
  then show ?thesis by (simp add: field_def)
qed

lemma keys_update: "fst ` set (AList.update k v al) = insert k (fst ` set al)"
  using dom_update[of k v al] by auto

text \<open>The merge of one diff.\<close>

lemma map_of_mergePending:
  "map_of (mergePending key prev v flds) k =
     (if k = key then Some (case map_of flds key of Some (p0, _) \<Rightarrow> p0 | None \<Rightarrow> prev, v)
      else map_of flds k)"
  by (auto simp: mergePending_def update_conv' split: option.splits)

lemma keys_mergePending:
  "fst ` set (mergePending key prev v flds) = insert key (fst ` set flds)"
  by (auto simp: mergePending_def keys_update split: option.splits)

lemma distinct_mergePending:
  "distinct (map fst flds) \<Longrightarrow> distinct (map fst (mergePending key prev v flds))"
  by (auto simp: mergePending_def distinct_update split: option.splits)

lemma pending_ok_set:
  assumes "pending_ok flds st0 st"
  shows "pending_ok (mergePending key (field st key) v flds) st0 (AList.update key v st)"
  unfolding pending_ok_def
proof
  fix k
  from assms have a: "case map_of flds k of
        Some (prev, v) \<Rightarrow> object_is prev (field st0 k) \<and> object_is v (field st k)
      | None \<Rightarrow> object_is (field st k) (field st0 k)"
    by (simp add: pending_ok_def)
  show "case map_of (mergePending key (field st key) v flds) k of
        Some (prev, w) \<Rightarrow> object_is prev (field st0 k) \<and> object_is w (field (AList.update key v st) k)
      | None \<Rightarrow> object_is (field (AList.update key v st) k) (field st0 k)"
    using a by (auto simp: map_of_mergePending split: option.splits)
qed

text \<open>The merge of a replaced state.\<close>

lemma mergeChanged_keys:
  "fst ` set flds \<subseteq> fst ` set (mergeChanged ks old new flds)"
proof (induction ks arbitrary: flds)
  case Nil
  then show ?case by simp
next
  case (Cons k ks)
  let ?flds1 = "(if \<not> object_is (field old k) (field new k)
        then mergePending k (field old k) (field new k) flds else flds)"
  have "fst ` set flds \<subseteq> fst ` set ?flds1" by (auto simp: keys_mergePending)
  also have "\<dots> \<subseteq> fst ` set (mergeChanged ks old new ?flds1)" by (rule Cons.IH)
  finally show ?case by simp
qed

lemma distinct_mergeChanged:
  "distinct (map fst flds) \<Longrightarrow> distinct (map fst (mergeChanged ks old new flds))"
  by (induction ks arbitrary: flds) (auto simp: distinct_mergePending)

lemma pending_ok_keys: "pending_ok flds st0 st = (\<forall>key. key_ok flds st0 st key)"
  by (simp add: pending_ok_def key_ok_def)

lemma mergeChanged_ok_aux:
  "distinct ks \<Longrightarrow> set ks \<inter> A = {} \<Longrightarrow>
   (\<forall>key. if key \<in> A then key_ok flds st0 new key else key_ok flds st0 old key) \<Longrightarrow>
   (\<forall>key. if key \<in> A \<union> set ks then key_ok (mergeChanged ks old new flds) st0 new key
           else key_ok (mergeChanged ks old new flds) st0 old key)"
proof (induction ks arbitrary: flds A)
  case Nil
  then show ?case by simp
next
  case (Cons k ks)
  let ?flds1 = "(if \<not> object_is (field old k) (field new k)
        then mergePending k (field old k) (field new k) flds else flds)"
  from Cons.prems have kA: "k \<notin> A" and d: "distinct ks" and kk: "k \<notin> set ks"
    and disj: "set ks \<inter> insert k A = {}" by auto
  from Cons.prems(3) kA have ko: "key_ok flds st0 old k" by (auto split: if_splits)
  have k1: "key_ok ?flds1 st0 new k"
  proof (cases "object_is (field old k) (field new k)")
    case True
    with ko show ?thesis
      by (auto simp: key_ok_def split: option.splits
            intro: object_is_trans object_is_sym)
  next
    case False
    with ko show ?thesis
      by (auto simp: key_ok_def map_of_mergePending split: option.splits)
  qed
  have other: "\<And>key. key \<noteq> k \<Longrightarrow> key_ok ?flds1 st0 x key = key_ok flds st0 x key" for x
    by (auto simp: key_ok_def map_of_mergePending)
  have inv1: "\<forall>key. if key \<in> insert k A then key_ok ?flds1 st0 new key else key_ok ?flds1 st0 old key"
  proof
    fix key
    show "if key \<in> insert k A then key_ok ?flds1 st0 new key else key_ok ?flds1 st0 old key"
    proof (cases "key = k")
      case True
      with k1 show ?thesis by simp
    next
      case False
      with other[OF False] Cons.prems(3) show ?thesis by (auto split: if_splits)
    qed
  qed
  from Cons.IH[OF d disj inv1] show ?case by simp
qed

lemma pending_ok_replace:
  assumes "pending_ok flds st0 old"
  shows "pending_ok (mergeChanged (allKeys old new) old new flds) st0 new"
proof -
  have a: "\<forall>key. if key \<in> {} then key_ok flds st0 new key else key_ok flds st0 old key"
    using assms by (simp add: pending_ok_keys)
  note r = mergeChanged_ok_aux[OF distinct_allKeys _ a, of old new, simplified]
  show ?thesis unfolding pending_ok_keys
  proof
    fix key
    show "key_ok (mergeChanged (allKeys old new) old new flds) st0 new key"
    proof (cases "key \<in> set (allKeys old new)")
      case True
      with r show ?thesis by (auto split: if_splits)
    next
      case False
      then have "field old key = VUndef" "field new key = VUndef"
        by (auto simp: set_allKeys intro: field_absent)
      moreover from r False have "key_ok (mergeChanged (allKeys old new) old new flds) st0 old key"
        by (auto split: if_splits)
      ultimately show ?thesis by (auto simp: key_ok_def split: option.splits)
    qed
  qed
qed

lemma in_batch_slice:
  assumes "in_batch s0 s" "map_of (slices s0) m = Some g0"
  shows "\<exists>g. map_of (slices s) m = Some g \<and> same_handle g0 g
          \<and> snapshot_ok (map_of (snapshots (batch_ctx s)) m) (state g0) (state g)
          \<and> pending_ok (pendingOf m (batch_ctx s)) (state g0) (state g)
          \<and> distinct (map fst (pendingOf m (batch_ctx s)))"
  using assms unfolding in_batch_def by blast

lemma in_batch_registered:
  assumes "in_batch s0 s" "map_of (slices s) n = Some h"
  shows "\<exists>h0. map_of (slices s0) n = Some h0 \<and> same_handle h0 h
           \<and> snapshot_ok (map_of (snapshots (batch_ctx s)) n) (state h0) (state h)
           \<and> pending_ok (pendingOf n (batch_ctx s)) (state h0) (state h)
           \<and> distinct (map fst (pendingOf n (batch_ctx s)))"
proof -
  from assms(2) have "n \<in> fst ` set (slices s)" by (metis map_of_eq_None_iff option.distinct(1))
  moreover have "map fst (slices s) = map fst (slices s0)" using assms(1) unfolding in_batch_def by blast
  ultimately have "n \<in> set (map fst (slices s0))" by (metis list.set_map)
  then obtain h0 where h0: "map_of (slices s0) n = Some h0"
    by (metis list.set_map map_of_eq_None_iff not_Some_eq)
  from in_batch_slice[OF assms(1) h0] assms(2) h0 show ?thesis by auto
qed

lemma map_fst_update_present:
  "map_of al k = Some x \<Longrightarrow> map fst (AList.update k v al) = map fst al"
  by (induction al) auto

lemma in_batch_snapshot:
  assumes inv: "in_batch s0 s" and h: "map_of (slices s) n = Some h"
    and none: "map_of (snapshots (batch_ctx s)) n = None"
    and sh: "shape_fields c = shape_fields (state h)"
  shows "in_batch s0 (s\<lparr>heap := a,
            batch_ctx := (batch_ctx s)\<lparr>snapshots := AList.update n c (snapshots (batch_ctx s))\<rparr>\<rparr>)"
proof -
  from in_batch_registered[OF inv h] obtain h0 where
    h0: "map_of (slices s0) n = Some h0" and
    so: "snapshot_ok (map_of (snapshots (batch_ctx s)) n) (state h0) (state h)" by blast
  from so none have eq: "state h = state h0" by (simp add: snapshot_ok_def)
  show ?thesis
    unfolding in_batch_def
  proof (intro conjI allI impI)
    fix m g0
    assume g0: "map_of (slices s0) m = Some g0"
    from in_batch_slice[OF inv g0] obtain g where g: "map_of (slices s) m = Some g" "same_handle g0 g"
        "snapshot_ok (map_of (snapshots (batch_ctx s)) m) (state g0) (state g)"
        "pending_ok (pendingOf m (batch_ctx s)) (state g0) (state g)"
        "distinct (map fst (pendingOf m (batch_ctx s)))"
      by blast
    have "snapshot_ok (map_of (AList.update n c (snapshots (batch_ctx s))) m) (state g0) (state g)"
    proof (cases "m = n")
      case True
      with g0 h0 g h sh eq show ?thesis by (simp add: update_conv' snapshot_ok_def)
    next
      case False
      with g(3) show ?thesis by (simp add: update_conv')
    qed
    with g show "\<exists>h. map_of (slices (s\<lparr>heap := a,
            batch_ctx := (batch_ctx s)\<lparr>snapshots := AList.update n c (snapshots (batch_ctx s))\<rparr>\<rparr>)) m = Some h
          \<and> same_handle g0 h
          \<and> snapshot_ok (map_of (snapshots (batch_ctx (s\<lparr>heap := a,
            batch_ctx := (batch_ctx s)\<lparr>snapshots := AList.update n c (snapshots (batch_ctx s))\<rparr>\<rparr>))) m) (state g0) (state h)
          \<and> pending_ok (pendingOf m (batch_ctx (s\<lparr>heap := a,
            batch_ctx := (batch_ctx s)\<lparr>snapshots := AList.update n c (snapshots (batch_ctx s))\<rparr>\<rparr>))) (state g0) (state h)
          \<and> distinct (map fst (pendingOf m (batch_ctx (s\<lparr>heap := a,
            batch_ctx := (batch_ctx s)\<lparr>snapshots := AList.update n c (snapshots (batch_ctx s))\<rparr>\<rparr>))))"
      by simp
  qed (use inv in \<open>auto simp: in_batch_def distinct_update\<close>)
qed

lemma in_batch_takeSnapshot:
  assumes inv: "in_batch s0 s" and h: "map_of (slices s) n = Some h"
  shows "in_batch s0 (takeSnapshot n (state h) s)"
    and "slices (takeSnapshot n (state h) s) = slices s"
    and "map_of (snapshots (batch_ctx (takeSnapshot n (state h) s))) n \<noteq> None"
    and "pendingFields (batch_ctx (takeSnapshot n (state h) s)) = pendingFields (batch_ctx s)"
    and "dirtySlices (batch_ctx (takeSnapshot n (state h) s)) = dirtySlices (batch_ctx s)"
    and "events (takeSnapshot n (state h) s) = events s"
    and "active (batch_ctx (takeSnapshot n (state h) s))"
proof -
  from inv have act: "active (batch_ctx s)" by (simp add: in_batch_def)
  obtain c a where c: "cloneState (heap s) (state h) = (c, a)" by (cases "cloneState (heap s) (state h)")
  then have sh: "shape_fields c = shape_fields (state h)"
    using clone_shape(2)[of "Suc (heap s)" "state h"] by (simp add: cloneState_def)
  show "in_batch s0 (takeSnapshot n (state h) s)"
  proof (cases "map_of (snapshots (batch_ctx s)) n")
    case None
    from in_batch_snapshot[OF inv h None sh, of a] act None c show ?thesis
      by (simp add: takeSnapshot_def)
  next
    case (Some x)
    with inv show ?thesis by (simp add: takeSnapshot_def)
  qed
  show "slices (takeSnapshot n (state h) s) = slices s"
    "map_of (snapshots (batch_ctx (takeSnapshot n (state h) s))) n \<noteq> None"
    "pendingFields (batch_ctx (takeSnapshot n (state h) s)) = pendingFields (batch_ctx s)"
    "dirtySlices (batch_ctx (takeSnapshot n (state h) s)) = dirtySlices (batch_ctx s)"
    "events (takeSnapshot n (state h) s) = events s"
    "active (batch_ctx (takeSnapshot n (state h) s))"
    using act c by (auto simp: takeSnapshot_def update_conv' split: prod.splits)
qed

lemma pendingOf_takeSnapshot [simp]:
  "pendingOf m (batch_ctx (takeSnapshot n st s)) = pendingOf m (batch_ctx s)"
  by (auto simp: takeSnapshot_def pendingOf_def split: prod.splits)

lemma in_batch_write:
  assumes inv: "in_batch s0 s" and h: "map_of (slices s) n = Some h"
    and snap: "map_of (snapshots (batch_ctx s)) n \<noteq> None"
    and ok: "\<And>st0. pending_ok (pendingOf n (batch_ctx s)) st0 (state h) \<Longrightarrow> pending_ok flds' st0 st'"
    and dist: "distinct (map fst flds')"
    and keys: "fst ` set (pendingOf n (batch_ctx s)) \<subseteq> fst ` set flds'"
    and s': "s' = s\<lparr>heap := a, slices := AList.update n (h\<lparr>state := st'\<rparr>) (slices s),
                   batch_ctx := (batch_ctx s)
                     \<lparr>dirtySlices := set_add n (dirtySlices (batch_ctx s)),
                      pendingFields := AList.update n flds' (pendingFields (batch_ctx s))\<rparr>\<rparr>"
  shows "in_batch s0 s' \<and> grows s s'"
proof
  from in_batch_registered[OF inv h] obtain h0 where
    h0: "map_of (slices s0) n = Some h0" and hh: "same_handle h0 h" and
    so: "snapshot_ok (map_of (snapshots (batch_ctx s)) n) (state h0) (state h)" and
    po: "pending_ok (pendingOf n (batch_ctx s)) (state h0) (state h)" by blast
  have nreg: "n \<in> set (map fst (slices s0))"
    using h0 by (metis list.set_map map_of_eq_None_iff option.distinct(1))
  show "grows s s'"
    unfolding grows_def s'
  proof (intro conjI allI impI)
    fix m key
    assume "key \<in> set (map fst (pendingOf m (batch_ctx s)))"
    then show "key \<in> set (map fst (pendingOf m (batch_ctx (s\<lparr>heap := a, slices := AList.update n (h\<lparr>state := st'\<rparr>) (slices s),
                   batch_ctx := (batch_ctx s)
                     \<lparr>dirtySlices := set_add n (dirtySlices (batch_ctx s)),
                      pendingFields := AList.update n flds' (pendingFields (batch_ctx s))\<rparr>\<rparr>))))"
      using keys by (cases "m = n") (auto simp: pendingOf_def update_conv')
  qed auto
  show "in_batch s0 s'"
    unfolding in_batch_def
  proof (intro conjI allI impI)
    fix m g0
    assume g0: "map_of (slices s0) m = Some g0"
    from in_batch_slice[OF inv g0] obtain g where g: "map_of (slices s) m = Some g" "same_handle g0 g"
        "snapshot_ok (map_of (snapshots (batch_ctx s)) m) (state g0) (state g)"
        "pending_ok (pendingOf m (batch_ctx s)) (state g0) (state g)"
        "distinct (map fst (pendingOf m (batch_ctx s)))"
      by blast
    show "\<exists>h. map_of (slices s') m = Some h \<and> same_handle g0 h
          \<and> snapshot_ok (map_of (snapshots (batch_ctx s')) m) (state g0) (state h)
          \<and> pending_ok (pendingOf m (batch_ctx s')) (state g0) (state h)
          \<and> distinct (map fst (pendingOf m (batch_ctx s')))"
    proof (cases "m = n")
      case True
      with g0 h0 have e: "g0 = h0" by simp
      have 1: "map_of (slices s') m = Some (h\<lparr>state := st'\<rparr>)" using True by (simp add: s' update_conv')
      have 2: "same_handle g0 (h\<lparr>state := st'\<rparr>)" using hh e by simp
      have 3: "snapshot_ok (map_of (snapshots (batch_ctx s')) m) (state g0) st'"
        using so snap True e by (auto simp: s' snapshot_ok_def split: option.splits)
      have 4: "pending_ok (pendingOf m (batch_ctx s')) (state g0) st'"
        using ok[OF po] True e by (simp add: s')
      have 5: "distinct (map fst (pendingOf m (batch_ctx s')))" using dist True by (simp add: s')
      from 1 2 3 4 5 show ?thesis by simp
    next
      case False
      then have "pendingOf m (batch_ctx s') = pendingOf m (batch_ctx s)"
        by (simp add: s' pendingOf_def update_conv')
      with False g show ?thesis by (simp add: s' update_conv')
    qed
  next
    show "set (dirtySlices (batch_ctx s')) \<subseteq> set (map fst (slices s0))"
      using inv nreg by (auto simp: s' in_batch_def)
    show "map fst (slices s') = map fst (slices s0)"
      using inv map_fst_update_present[OF h] by (simp add: s' in_batch_def)
    show "set (dirtySlices (batch_ctx s')) = set (map fst (pendingFields (batch_ctx s')))"
      using inv keys_update[of n flds' "pendingFields (batch_ctx s)"] by (simp add: s' in_batch_def)
  qed (use inv in \<open>auto simp: s' in_batch_def distinct_update\<close>)
qed

lemma grows_takeSnapshot: "grows s (takeSnapshot n st s)"
  by (auto simp: grows_def takeSnapshot_def split: prod.splits)

lemma in_batch_active: "in_batch s0 s \<Longrightarrow> active (batch_ctx s)"
  by (simp add: in_batch_def)

lemma in_batch_events: "in_batch s0 s \<Longrightarrow> events s = events s0"
  by (simp add: in_batch_def)

text \<open>A write of one field inside a batch.\<close>

lemma set_field_write:
  assumes inv: "in_batch s0 s" and h: "map_of (slices s) n = Some h"
    and s': "s' = (let s1 = takeSnapshot n (state h) s;
                       s2 = s1\<lparr>slices := AList.update n (h\<lparr>state := AList.update key v (state h)\<rparr>) (slices s1)\<rparr>
                   in s2\<lparr>batch_ctx := (batch_ctx s2)
                          \<lparr>dirtySlices := set_add n (dirtySlices (batch_ctx s2)),
                           pendingFields :=
                             AList.update n
                               (mergePending key (field (state h) key) v (pendingOf n (batch_ctx s2)))
                               (pendingFields (batch_ctx s2))\<rparr>\<rparr>)"
  shows "in_batch s0 s' \<and> grows s s'"
proof -
  define s1 where "s1 = takeSnapshot n (state h) s"
  note t = in_batch_takeSnapshot[OF inv h, folded s1_def]
  have h1: "map_of (slices s1) n = Some h" using t(2) h by simp
  have po: "pendingOf n (batch_ctx s1) = pendingOf n (batch_ctx s)" by (simp add: s1_def)
  have eq: "s' = s1\<lparr>heap := heap s1,
                   slices := AList.update n (h\<lparr>state := AList.update key v (state h)\<rparr>) (slices s1),
                   batch_ctx := (batch_ctx s1)
                     \<lparr>dirtySlices := set_add n (dirtySlices (batch_ctx s1)),
                      pendingFields := AList.update n
                         (mergePending key (field (state h) key) v (pendingOf n (batch_ctx s1)))
                         (pendingFields (batch_ctx s1))\<rparr>\<rparr>"
    unfolding s' s1_def[symmetric] by (simp add: Let_def pendingOf_def)
  have "in_batch s0 s' \<and> grows s1 s'"
  proof (rule in_batch_write[OF t(1) h1 t(3) _ _ _ eq])
    show "\<And>st0. pending_ok (pendingOf n (batch_ctx s1)) st0 (state h) \<Longrightarrow>
        pending_ok (mergePending key (field (state h) key) v (pendingOf n (batch_ctx s1))) st0
          (AList.update key v (state h))"
      by (rule pending_ok_set)
    from in_batch_registered[OF t(1) h1]
    show "distinct (map fst (mergePending key (field (state h) key) v (pendingOf n (batch_ctx s1))))"
      by (auto intro: distinct_mergePending)
    show "fst ` set (pendingOf n (batch_ctx s1))
          \<subseteq> fst ` set (mergePending key (field (state h) key) v (pendingOf n (batch_ctx s1)))"
      by (auto simp: keys_mergePending)
  qed
  moreover have "grows s s1" unfolding s1_def by (rule grows_takeSnapshot)
  ultimately show ?thesis using grows_trans by blast
qed

lemma set_field_batch:
  assumes inv: "in_batch s0 s" and r: "set_field n key v s = (res, s')"
  shows "in_batch s0 s' \<and> grows s s'"
proof (cases "map_of (slices s) n")
  case None
  with r inv show ?thesis by (simp add: set_field_def grows_refl)
next
  case (Some h)
  note act = in_batch_active[OF inv]
  show ?thesis
  proof (cases "s' = s")
    case True
    with inv show ?thesis by (simp add: grows_refl)
  next
    case False
    have act1: "active (batch_ctx (takeSnapshot n (state h) s))"
      using in_batch_takeSnapshot(7)[OF inv Some] .
    from False r Some obtain inc where
      "s' = (let s1 = takeSnapshot n (state h) s;
                       s2 = s1\<lparr>slices := AList.update n (h\<lparr>state := AList.update key (field inc key) (state h)\<rparr>) (slices s1)\<rparr>
                   in s2\<lparr>batch_ctx := (batch_ctx s2)
                          \<lparr>dirtySlices := set_add n (dirtySlices (batch_ctx s2)),
                           pendingFields :=
                             AList.update n
                               (mergePending key (field (state h) key) (field inc key) (pendingOf n (batch_ctx s2)))
                               (pendingFields (batch_ctx s2))\<rparr>\<rparr>)"
      using act1
      by (auto simp: set_field_def Let_def split: if_splits sum.splits option.splits)
    from set_field_write[OF inv Some this] show ?thesis .
  qed
qed

lemma handle_batch_loop_batch:
  "in_batch s0 s \<Longrightarrow> handle_batch_loop n ups rej s = (res, s') \<Longrightarrow> in_batch s0 s' \<and> grows s s'"
proof (induction ups arbitrary: rej s)
  case Nil
  then show ?case by (simp add: grows_refl)
next
  case (Cons a ups)
  obtain key v where a: "a = (key, v)" by (cases a)
  obtain r1 s1 where r1: "set_field n key v s = (r1, s1)" by (cases "set_field n key v s")
  from set_field_batch[OF Cons.prems(1) r1] have i1: "in_batch s0 s1" "grows s s1" by auto
  show ?case
  proof (cases r1)
    case (Raise e)
    with Cons.prems(2) a r1 i1 show ?thesis by simp
  next
    case (Return ok)
    with Cons.prems(2) a r1
    have "handle_batch_loop n ups (if ok then rej else rej @ [key]) s1 = (res, s')" by simp
    from Cons.IH[OF i1(1) this] i1(2) show ?thesis using grows_trans by blast
  qed
qed

lemma handle_reset_loop_batch:
  "in_batch s0 s \<Longrightarrow> handle_reset_loop n ups s = (res, s') \<Longrightarrow> in_batch s0 s' \<and> grows s s'"
proof (induction ups arbitrary: s)
  case Nil
  then show ?case by (simp add: grows_refl)
next
  case (Cons a ups)
  obtain key v where a: "a = (key, v)" by (cases a)
  obtain r1 s1 where r1: "set_field n key v s = (r1, s1)" by (cases "set_field n key v s")
  from set_field_batch[OF Cons.prems(1) r1] have i1: "in_batch s0 s1" "grows s s1" by auto
  show ?case
  proof (cases r1)
    case (Raise e)
    with Cons.prems(2) a r1 i1 show ?thesis by simp
  next
    case (Return ok)
    with Cons.prems(2) a r1
    have "handle_reset_loop n ups s1 = (res, s')" by simp
    from Cons.IH[OF i1(1) this] i1(2) show ?thesis using grows_trans by blast
  qed
qed

text \<open>The replacement of a slice state inside a batch (\<open>restore\<close>, \<open>resetState\<close>).\<close>

lemma replace_batch:
  assumes inv: "in_batch s0 s" and h: "map_of (slices s) n = Some h"
    and r: "notifySliceChanges n (h\<lparr>state := new\<rparr>) (state h)
              ((takeSnapshot n (state h) s)\<lparr>heap := a,
                 slices := AList.update n (h\<lparr>state := new\<rparr>) (slices (takeSnapshot n (state h) s))\<rparr>)
            = (res, s')"
  shows "res = None \<and> in_batch s0 s' \<and> grows s s'"
proof -
  define s1 where "s1 = takeSnapshot n (state h) s"
  note t = in_batch_takeSnapshot[OF inv h, folded s1_def]
  have h1: "map_of (slices s1) n = Some h" using t(2) h by simp
  from r t(7) have res: "res = None" and
    eq: "s' = s1\<lparr>heap := a,
                   slices := AList.update n (h\<lparr>state := new\<rparr>) (slices s1),
                   batch_ctx := (batch_ctx s1)
                     \<lparr>dirtySlices := set_add n (dirtySlices (batch_ctx s1)),
                      pendingFields := AList.update n
                         (mergeChanged (allKeys (state h) new) (state h) new (pendingOf n (batch_ctx s1)))
                         (pendingFields (batch_ctx s1))\<rparr>\<rparr>"
    unfolding s1_def[symmetric] by (auto simp: notifySliceChanges_def Let_def pendingOf_def)
  have "in_batch s0 s' \<and> grows s1 s'"
  proof (rule in_batch_write[OF t(1) h1 t(3) _ _ _ eq])
    show "\<And>st0. pending_ok (pendingOf n (batch_ctx s1)) st0 (state h) \<Longrightarrow>
        pending_ok (mergeChanged (allKeys (state h) new) (state h) new (pendingOf n (batch_ctx s1))) st0 new"
      by (rule pending_ok_replace)
    from in_batch_registered[OF t(1) h1]
    show "distinct (map fst (mergeChanged (allKeys (state h) new) (state h) new (pendingOf n (batch_ctx s1))))"
      by (auto intro: distinct_mergeChanged)
    show "fst ` set (pendingOf n (batch_ctx s1))
          \<subseteq> fst ` set (mergeChanged (allKeys (state h) new) (state h) new (pendingOf n (batch_ctx s1)))"
      by (rule mergeChanged_keys)
  qed
  moreover have "grows s s1" unfolding s1_def by (rule grows_takeSnapshot)
  ultimately show ?thesis using grows_trans res by blast
qed

lemma restore_loop_batch:
  "in_batch s0 s \<Longrightarrow> restore_loop data b s = (res, b', s') \<Longrightarrow>
     res = None \<and> in_batch s0 s' \<and> grows s s'"
proof (induction data arbitrary: b s)
  case Nil
  then show ?case by (simp add: grows_refl)
next
  case (Cons a data)
  obtain n d where a: "a = (n, d)" by (cases a)
  show ?case
  proof (cases "map_of (slices s) n")
    case None
    with Cons a show ?thesis by simp
  next
    case (Some h)
    show ?thesis
    proof (cases "\<exists>x fs. d = VObj x fs")
      case False
      with Cons.prems(2) a Some have "restore_loop data b s = (res, b', s')"
        by (cases d) auto
      from Cons.IH[OF Cons.prems(1) this] show ?thesis .
    next
      case True
      then obtain x fs where d: "d = VObj x fs" by blast
      define s1 where "s1 = takeSnapshot n (state h) s"
      obtain cd a1 where cd: "cloneState (heap s1) fs = (cd, a1)" by (cases "cloneState (heap s1) fs")
      obtain cf a2 where cf: "cloneState a1 (defaults h) = (cf, a2)" by (cases "cloneState a1 (defaults h)")
      obtain r3 s3 where n3: "notifySliceChanges n (h\<lparr>state := spread cf cd\<rparr>) (state h)
              (s1\<lparr>heap := a2, slices := AList.update n (h\<lparr>state := spread cf cd\<rparr>) (slices s1)\<rparr>) = (r3, s3)"
        by (cases "notifySliceChanges n (h\<lparr>state := spread cf cd\<rparr>) (state h)
              (s1\<lparr>heap := a2, slices := AList.update n (h\<lparr>state := spread cf cd\<rparr>) (slices s1)\<rparr>)")
      from replace_batch[OF Cons.prems(1) Some n3[unfolded s1_def]]
      have i3: "r3 = None" "in_batch s0 s3" "grows s s3" by auto
      from Cons.prems(2) a Some d cd cf n3 i3(1)
      have "restore_loop data True s3 = (res, b', s')"
        by (simp add: Let_def s1_def[symmetric])
      from Cons.IH[OF i3(2) this] i3(3) show ?thesis using grows_trans by blast
    qed
  qed
qed

lemma resetState_loop_batch:
  "in_batch s0 s \<Longrightarrow> resetState_loop ns b s = (res, b', s') \<Longrightarrow>
     res = None \<and> in_batch s0 s' \<and> grows s s'"
proof (induction ns arbitrary: b s)
  case Nil
  then show ?case by (simp add: grows_refl)
next
  case (Cons n ns)
  show ?case
  proof (cases "map_of (slices s) n")
    case None
    with Cons show ?thesis by simp
  next
    case (Some h)
    define s1 where "s1 = takeSnapshot n (state h) s"
    obtain cd a1 where cd: "cloneState (heap s1) (defaults h) = (cd, a1)"
      by (cases "cloneState (heap s1) (defaults h)")
    obtain r3 s3 where n3: "notifySliceChanges n (h\<lparr>state := cd\<rparr>) (state h)
              (s1\<lparr>heap := a1, slices := AList.update n (h\<lparr>state := cd\<rparr>) (slices s1)\<rparr>) = (r3, s3)"
      by (cases "notifySliceChanges n (h\<lparr>state := cd\<rparr>) (state h)
              (s1\<lparr>heap := a1, slices := AList.update n (h\<lparr>state := cd\<rparr>) (slices s1)\<rparr>)")
    from replace_batch[OF Cons.prems(1) Some n3[unfolded s1_def]]
    have i3: "r3 = None" "in_batch s0 s3" "grows s s3" by auto
    from Cons.prems(2) Some cd n3 i3(1)
    have "resetState_loop ns True s3 = (res, b', s')"
      by (simp add: Let_def s1_def[symmetric])
    from Cons.IH[OF i3(2) this] i3(3) show ?thesis using grows_trans by blast
  qed
qed

lemma restore_batch:
  assumes "in_batch s0 s" "restore data s = (res, s')"
  shows "res = Return () \<and> in_batch s0 s' \<and> grows s s'"
proof -
  obtain r b s1 where l: "restore_loop data False s = (r, b, s1)"
    by (cases "restore_loop data False s")
  from restore_loop_batch[OF assms(1) l] have i: "r = None" "in_batch s0 s1" "grows s s1" by auto
  from assms(2) l i in_batch_active[OF i(2)] show ?thesis by (simp add: restore_def)
qed

lemma resetState_batch:
  assumes "in_batch s0 s" "resetState s = (res, s')"
  shows "res = Return () \<and> in_batch s0 s' \<and> grows s s'"
proof -
  obtain r b s1 where l: "resetState_loop (map fst (slices s)) False s = (r, b, s1)"
    by (cases "resetState_loop (map fst (slices s)) False s")
  from resetState_loop_batch[OF assms(1) l] have i: "r = None" "in_batch s0 s1" "grows s s1" by auto
  from assms(2) l i in_batch_active[OF i(2)] show ?thesis by (simp add: resetState_def)
qed

lemma unit_result_cases:
  "unit_result (r, s) = (res, s') \<Longrightarrow> s' = s"
  by (cases r) (auto simp: unit_result_def)

lemma exec_batch_aux:
  "(list_all batch_aware fn \<longrightarrow> in_batch s0 s \<longrightarrow>
      (\<forall>res s'. batch fn s = (res, s') \<longrightarrow> in_batch s0 s' \<and> grows s s'))"
  "(batch_aware c \<longrightarrow> in_batch s0 s \<longrightarrow>
      (\<forall>res s'. exec c s = (res, s') \<longrightarrow> in_batch s0 s' \<and> grows s s'))"
  "(list_all batch_aware cs \<longrightarrow> in_batch s0 s \<longrightarrow>
      (\<forall>res s'. exec_all cs s = (res, s') \<longrightarrow> in_batch s0 s' \<and> grows s s'))"
proof (induction fn s and c s and cs s rule: batch_exec_exec_all.induct)
  case (1 fn s)
  then show ?case by (auto simp: in_batch_active)
next
  case (2 n key v s)
  show ?case
  proof (intro impI allI)
    fix res s' assume inv: "in_batch s0 s" and e: "exec (CSet n key v) s = (res, s')"
    obtain r1 s1 where r: "set_field n key v s = (r1, s1)" by (cases "set_field n key v s")
    from e r have "s' = s1" by (auto dest: unit_result_cases)
    with set_field_batch[OF inv r] show "in_batch s0 s' \<and> grows s s'" by simp
  qed
next
  case (3 n updates s)
  show ?case
  proof (intro impI allI)
    fix res s' assume inv: "in_batch s0 s" and e: "exec (CHandleBatch n updates) s = (res, s')"
    obtain r1 s1 where r: "handle_batch_loop n updates [] s = (r1, s1)"
      by (cases "handle_batch_loop n updates [] s")
    from e r have "s' = s1" by (auto simp: handle_batch_def dest: unit_result_cases)
    with handle_batch_loop_batch[OF inv r] show "in_batch s0 s' \<and> grows s s'" by simp
  qed
next
  case (4 n s)
  show ?case
  proof (intro impI allI)
    fix res s' assume inv: "in_batch s0 s" and e: "exec (CHandleReset n) s = (res, s')"
    show "in_batch s0 s' \<and> grows s s'"
    proof (cases "map_of (slices s) n")
      case None
      with e inv show ?thesis by (auto simp: handle_reset_def unit_result_def grows_refl)
    next
      case (Some h)
      obtain r1 s1 where r: "handle_reset_loop n (defaults h) s = (r1, s1)"
        by (cases "handle_reset_loop n (defaults h) s")
      from e r Some have "s' = s1" by (auto simp: handle_reset_def dest: unit_result_cases)
      with handle_reset_loop_batch[OF inv r] show ?thesis by simp
    qed
  qed
next
  case (5 data s)
  show ?case
  proof (intro impI allI)
    fix res s' assume inv: "in_batch s0 s" and e: "exec (CRestore data) s = (res, s')"
    obtain r1 s1 where r: "restore data s = (r1, s1)" by (cases "restore data s")
    from e r have "s' = s1" by (auto dest: unit_result_cases)
    with restore_batch[OF inv r] show "in_batch s0 s' \<and> grows s s'" by simp
  qed
next
  case (6 s)
  show ?case
  proof (intro impI allI)
    fix res s' assume inv: "in_batch s0 s" and e: "exec CResetState s = (res, s')"
    obtain r1 s1 where r: "resetState s = (r1, s1)" by (cases "resetState s")
    from e r have "s' = s1" by (auto dest: unit_result_cases)
    with resetState_batch[OF inv r] show "in_batch s0 s' \<and> grows s s'" by simp
  qed
next
  case (7 s)
  then show ?case by simp
next
  case (8 fn s)
  then show ?case by simp
next
  case (9 e s)
  then show ?case by (simp add: grows_refl)
next
  case (10 s)
  then show ?case by (simp add: grows_refl)
next
  case (11 c cs s)
  show ?case
  proof (intro impI allI)
    fix res s' assume aw: "list_all batch_aware (c # cs)"
      and inv: "in_batch s0 s" and e: "exec_all (c # cs) s = (res, s')"
    obtain r1 s1 where r: "exec c s = (r1, s1)" by (cases "exec c s")
    from 11(1) aw inv r have i1: "in_batch s0 s1" "grows s s1" by auto
    show "in_batch s0 s' \<and> grows s s'"
    proof (cases r1)
      case None
      with e r have e2: "exec_all cs s1 = (res, s')" by simp
      from 11(2)[OF r[symmetric] None] aw i1(1) e2 have "in_batch s0 s'" "grows s1 s'" by auto
      with i1(2) show ?thesis using grows_trans by blast
    next
      case (Some err)
      with e r i1 show ?thesis by simp
    qed
  qed
qed

lemma exec_all_batch:
  "list_all batch_aware cs \<Longrightarrow> in_batch s0 s \<Longrightarrow> exec_all cs s = (res, s') \<Longrightarrow>
     in_batch s0 s' \<and> grows s s'"
  using exec_batch_aux(3) by blast

lemma in_batch_heap: "in_batch s0 s \<Longrightarrow> in_batch s0 (s\<lparr>heap := a\<rparr>)"
  unfolding in_batch_def by auto

lemma grows_heap: "grows s (s\<lparr>heap := a\<rparr>)"
  by (simp add: grows_def)

lemma diffLoop_unchanged:
  "diffLoop keys cloned st ck = (st', ck') \<Longrightarrow>
     set ck \<subseteq> set ck' \<and> (\<forall>k. k \<notin> set ck' \<longrightarrow> field st' k = field st k)"
proof (induction keys arbitrary: st ck)
  case Nil
  then show ?case by simp
next
  case (Cons key keys)
  show ?case
  proof (cases "object_is (field st key) (field cloned key)")
    case True
    with Cons.prems have "diffLoop keys cloned st ck = (st', ck')" by simp
    from Cons.IH[OF this] show ?thesis .
  next
    case False
    with Cons.prems
    have d: "diffLoop keys cloned (AList.update key (field cloned key) st) (ck @ [key]) = (st', ck')"
      by simp
    from Cons.IH[OF d] have 1: "set (ck @ [key]) \<subseteq> set ck'"
      and 2: "\<forall>k. k \<notin> set ck' \<longrightarrow> field st' k = field (AList.update key (field cloned key) st) k"
      by auto
    from 1 have "key \<in> set ck'" by auto
    with 2 have "\<forall>k. k \<notin> set ck' \<longrightarrow> field st' k = field st k"
      by (metis field_update_other)
    with 1 show ?thesis by auto
  qed
qed

lemma diffLoop_none:
  "diffLoop keys cloned st ck = (st', ck') \<Longrightarrow> length ck \<le> length ck' \<and> (ck' = ck \<longrightarrow> st' = st)"
proof (induction keys arbitrary: st ck)
  case Nil
  then show ?case by simp
next
  case (Cons key keys)
  show ?case
  proof (cases "object_is (field st key) (field cloned key)")
    case True
    with Cons.prems have "diffLoop keys cloned st ck = (st', ck')" by simp
    from Cons.IH[OF this] show ?thesis .
  next
    case False
    with Cons.prems
    have d: "diffLoop keys cloned (AList.update key (field cloned key) st) (ck @ [key]) = (st', ck')"
      by simp
    from Cons.IH[OF d] have "length (ck @ [key]) \<le> length ck'" by blast
    then show ?thesis by auto
  qed
qed

lemma map_of_mergeKeys:
  "map_of (mergeKeys ks prev st flds) k =
     (if k \<in> set ks
      then Some (case map_of flds k of Some (p0, _) \<Rightarrow> p0 | None \<Rightarrow> field prev k, field st k)
      else map_of flds k)"
proof (induction ks arbitrary: flds)
  case Nil
  then show ?case by simp
next
  case (Cons key ks)
  show ?case
    by (simp add: Cons.IH map_of_mergePending split: option.splits)
qed

lemma keys_mergeKeys: "fst ` set (mergeKeys ks prev st flds) = set ks \<union> fst ` set flds"
  by (induction ks arbitrary: flds) (auto simp: keys_mergePending)

lemma distinct_mergeKeys:
  "distinct (map fst flds) \<Longrightarrow> distinct (map fst (mergeKeys ks prev st flds))"
  by (induction ks arbitrary: flds) (auto simp: distinct_mergePending)

lemma pending_ok_update:
  assumes ok: "pending_ok flds st0 prev"
    and same: "\<forall>k. k \<notin> set ks \<longrightarrow> field st k = field prev k"
  shows "pending_ok (mergeKeys ks prev st flds) st0 st"
  unfolding pending_ok_def
proof
  fix key
  from ok have a: "case map_of flds key of
            Some (p, v) \<Rightarrow> object_is p (field st0 key) \<and> object_is v (field prev key)
          | None \<Rightarrow> object_is (field prev key) (field st0 key)"
    by (simp add: pending_ok_def)
  show "case map_of (mergeKeys ks prev st flds) key of
            Some (p, v) \<Rightarrow> object_is p (field st0 key) \<and> object_is v (field st key)
          | None \<Rightarrow> object_is (field st key) (field st0 key)"
  proof (cases "key \<in> set ks")
    case True
    with a show ?thesis by (auto simp: map_of_mergeKeys split: option.splits)
  next
    case False
    with same have "field st key = field prev key" by simp
    with a False show ?thesis by (auto simp: map_of_mergeKeys split: option.splits)
  qed
qed

lemma batch_ctx_swap:
  "b\<lparr>pendingFields := x, dirtySlices := y\<rparr> = b\<lparr>dirtySlices := y, pendingFields := x\<rparr>"
  by (cases b) simp

lemma update_same_handle:
  "map_of al n = Some h \<Longrightarrow> AList.update n (h\<lparr>state := state h\<rparr>) al = al"
  by (simp add: update_triv)

lemma updateSlice_batch:
  assumes inv: "in_batch s0 s" and r: "updateSlice n partial s = (res, s')"
  shows "in_batch s0 s' \<and> grows s s'"
proof (cases "map_of (slices s) n")
  case None
  with r inv show ?thesis by (simp add: updateSlice_def grows_refl)
next
  case (Some h)
  show ?thesis
  proof (cases "runMiddleware_sig n 0 (middleware h) (state h) partial")
    case (Inl e)
    with r Some inv show ?thesis by (simp add: updateSlice_def grows_refl)
  next
    case (Inr po)
    show ?thesis
    proof (cases po)
      case None
      with r Some Inr inv show ?thesis by (simp add: updateSlice_def grows_refl)
    next
      case (Some processed)
      define s1 where "s1 = takeSnapshot n (state h) s"
      note t = in_batch_takeSnapshot[OF inv \<open>map_of (slices s) n = Some h\<close>, folded s1_def]
      have h1: "map_of (slices s1) n = Some h" using t(2) \<open>map_of (slices s) n = Some h\<close> by simp
      have g1: "grows s s1" unfolding s1_def by (rule grows_takeSnapshot)
      obtain cp a where cp: "cloneState (heap s1) processed = (cp, a)"
        by (cases "cloneState (heap s1) processed")
      obtain st ck where dl: "diffLoop (map fst cp) cp (state h) [] = (st, ck)"
        by (cases "diffLoop (map fst cp) cp (state h) []")
      show ?thesis
      proof (cases "ck = []")
        case True
        with diffLoop_none[OF dl] have "st = state h" by simp
        with r \<open>map_of (slices s) n = Some h\<close> Inr Some cp dl True h1
        have "s' = s1\<lparr>heap := a\<rparr>"
          by (auto simp add: updateSlice_def Let_def s1_def[symmetric] update_triv)
        with in_batch_heap[OF t(1)] g1 grows_heap[of s1 a] show ?thesis
          using grows_trans by blast
      next
        case False
        with r \<open>map_of (slices s) n = Some h\<close> Inr Some cp dl t(7)
        have eq: "s' = s1\<lparr>heap := a,
                   slices := AList.update n (h\<lparr>state := st\<rparr>) (slices s1),
                   batch_ctx := (batch_ctx s1)
                     \<lparr>dirtySlices := set_add n (dirtySlices (batch_ctx s1)),
                      pendingFields := AList.update n
                         (mergeKeys ck (state h) st (pendingOf n (batch_ctx s1)))
                         (pendingFields (batch_ctx s1))\<rparr>\<rparr>"
          by (auto simp add: updateSlice_def Let_def s1_def[symmetric] pendingOf_def batch_ctx_swap)
        have "in_batch s0 s' \<and> grows s1 s'"
        proof (rule in_batch_write[OF t(1) h1 t(3) _ _ _ eq])
          from diffLoop_unchanged[OF dl]
          show "\<And>st0. pending_ok (pendingOf n (batch_ctx s1)) st0 (state h) \<Longrightarrow>
              pending_ok (mergeKeys ck (state h) st (pendingOf n (batch_ctx s1))) st0 st"
            by (intro pending_ok_update) auto
          from in_batch_registered[OF t(1) h1]
          show "distinct (map fst (mergeKeys ck (state h) st (pendingOf n (batch_ctx s1))))"
            by (auto intro: distinct_mergeKeys)
          show "fst ` set (pendingOf n (batch_ctx s1))
                \<subseteq> fst ` set (mergeKeys ck (state h) st (pendingOf n (batch_ctx s1)))"
            by (auto simp: keys_mergeKeys)
        qed
        with g1 show ?thesis using grows_trans by blast
      qed
    qed
  qed
qed

text \<open>The replacement of a slice state inside a batch of the Signal-based store.\<close>

lemma replace_sig_batch:
  assumes inv: "in_batch s0 s" and h: "map_of (slices s) n = Some h"
    and r: "notifySliceChange n (h\<lparr>state := new\<rparr>) (state h)
              (s\<lparr>heap := a, slices := AList.update n (h\<lparr>state := new\<rparr>) (slices s)\<rparr>) = (res, s')"
  shows "res = None \<and> in_batch s0 s' \<and> grows s s'"
proof -
  define s1 where "s1 = (if map_of (snapshots (batch_ctx s)) n = None
      then s\<lparr>heap := a, batch_ctx := (batch_ctx s)\<lparr>snapshots := AList.update n (state h) (snapshots (batch_ctx s))\<rparr>\<rparr>
      else s\<lparr>heap := a\<rparr>)"
  have i1: "in_batch s0 s1"
    using in_batch_snapshot[OF inv h _ refl, of a] in_batch_heap[OF inv, of a]
    by (simp add: s1_def)
  have g1: "grows s s1" by (simp add: s1_def grows_def)
  have h1: "map_of (slices s1) n = Some h" using h by (simp add: s1_def)
  have sn: "map_of (snapshots (batch_ctx s1)) n \<noteq> None" by (simp add: s1_def update_conv')
  from r in_batch_active[OF inv] have res: "res = None" and
    eq: "s' = s1\<lparr>heap := a,
                   slices := AList.update n (h\<lparr>state := new\<rparr>) (slices s1),
                   batch_ctx := (batch_ctx s1)
                     \<lparr>dirtySlices := set_add n (dirtySlices (batch_ctx s1)),
                      pendingFields := AList.update n
                         (mergeChanged (allKeys (state h) new) (state h) new (pendingOf n (batch_ctx s1)))
                         (pendingFields (batch_ctx s1))\<rparr>\<rparr>"
    by (auto simp: notifySliceChange_def Let_def pendingOf_def s1_def batch_ctx_swap)
  have "in_batch s0 s' \<and> grows s1 s'"
  proof (rule in_batch_write[OF i1 h1 sn _ _ _ eq])
    show "\<And>st0. pending_ok (pendingOf n (batch_ctx s1)) st0 (state h) \<Longrightarrow>
        pending_ok (mergeChanged (allKeys (state h) new) (state h) new (pendingOf n (batch_ctx s1))) st0 new"
      by (rule pending_ok_replace)
    from in_batch_registered[OF i1 h1]
    show "distinct (map fst (mergeChanged (allKeys (state h) new) (state h) new (pendingOf n (batch_ctx s1))))"
      by (auto intro: distinct_mergeChanged)
    show "fst ` set (pendingOf n (batch_ctx s1))
          \<subseteq> fst ` set (mergeChanged (allKeys (state h) new) (state h) new (pendingOf n (batch_ctx s1)))"
      by (rule mergeChanged_keys)
  qed
  with g1 res show ?thesis using grows_trans by blast
qed

lemma restore_sig_loop_batch:
  "in_batch s0 s \<Longrightarrow> restore_sig_loop data b s = (res, b', s') \<Longrightarrow>
     res = None \<and> in_batch s0 s' \<and> grows s s'"
proof (induction data arbitrary: b s)
  case Nil
  then show ?case by (simp add: grows_refl)
next
  case (Cons a data)
  obtain n d where a: "a = (n, d)" by (cases a)
  show ?case
  proof (cases "map_of (slices s) n")
    case None
    with Cons a show ?thesis by simp
  next
    case (Some h)
    show ?thesis
    proof (cases "\<exists>x fs. d = VObj x fs")
      case False
      with Cons.prems(2) a Some have "restore_sig_loop data b s = (res, b', s')"
        by (cases d) auto
      from Cons.IH[OF Cons.prems(1) this] show ?thesis .
    next
      case True
      then obtain x fs where d: "d = VObj x fs" by blast
      obtain cd a1 where cd: "cloneState (heap s) fs = (cd, a1)" by (cases "cloneState (heap s) fs")
      obtain r3 s3 where n3: "notifySliceChange n (h\<lparr>state := cd\<rparr>) (state h)
              (s\<lparr>heap := a1, slices := AList.update n (h\<lparr>state := cd\<rparr>) (slices s)\<rparr>) = (r3, s3)"
        by (cases "notifySliceChange n (h\<lparr>state := cd\<rparr>) (state h)
              (s\<lparr>heap := a1, slices := AList.update n (h\<lparr>state := cd\<rparr>) (slices s)\<rparr>)")
      from replace_sig_batch[OF Cons.prems(1) Some n3]
      have i3: "r3 = None" "in_batch s0 s3" "grows s s3" by auto
      from Cons.prems(2) a Some d cd n3 i3(1)
      have "restore_sig_loop data True s3 = (res, b', s')"
        by (simp add: Let_def)
      from Cons.IH[OF i3(2) this] i3(3) show ?thesis using grows_trans by blast
    qed
  qed
qed

lemma resetState_sig_loop_batch:
  "in_batch s0 s \<Longrightarrow> resetState_sig_loop ns b s = (res, b', s') \<Longrightarrow>
     res = None \<and> in_batch s0 s' \<and> grows s s'"
proof (induction ns arbitrary: b s)
  case Nil
  then show ?case by (simp add: grows_refl)
next
  case (Cons n ns)
  show ?case
  proof (cases "map_of (slices s) n")
    case None
    with Cons show ?thesis by simp
  next
    case (Some h)
    obtain cd a1 where cd: "cloneState (heap s) (defaults h) = (cd, a1)"
      by (cases "cloneState (heap s) (defaults h)")
    obtain r3 s3 where n3: "notifySliceChange n (h\<lparr>state := cd\<rparr>) (state h)
              (s\<lparr>heap := a1, slices := AList.update n (h\<lparr>state := cd\<rparr>) (slices s)\<rparr>) = (r3, s3)"
      by (cases "notifySliceChange n (h\<lparr>state := cd\<rparr>) (state h)
              (s\<lparr>heap := a1, slices := AList.update n (h\<lparr>state := cd\<rparr>) (slices s)\<rparr>)")
    from replace_sig_batch[OF Cons.prems(1) Some n3]
    have i3: "r3 = None" "in_batch s0 s3" "grows s s3" by auto
    from Cons.prems(2) Some cd n3 i3(1)
    have "resetState_sig_loop ns True s3 = (res, b', s')"
      by (simp add: Let_def)
    from Cons.IH[OF i3(2) this] i3(3) show ?thesis using grows_trans by blast
  qed
qed

lemma restore_sig_batch:
  assumes "in_batch s0 s" "restore_sig data s = (res, s')"
  shows "res = Return () \<and> in_batch s0 s' \<and> grows s s'"
proof -
  obtain r b s1 where l: "restore_sig_loop data False s = (r, b, s1)"
    by (cases "restore_sig_loop data False s")
  from restore_sig_loop_batch[OF assms(1) l] have i: "r = None" "in_batch s0 s1" "grows s s1" by auto
  from assms(2) l i in_batch_active[OF i(2)] show ?thesis by (simp add: restore_sig_def)
qed

lemma resetState_sig_batch:
  assumes "in_batch s0 s" "resetState_sig s = (res, s')"
  shows "res = Return () \<and> in_batch s0 s' \<and> grows s s'"
proof -
  obtain r b s1 where l: "resetState_sig_loop (map fst (slices s)) False s = (r, b, s1)"
    by (cases "resetState_sig_loop (map fst (slices s)) False s")
  from resetState_sig_loop_batch[OF assms(1) l] have i: "r = None" "in_batch s0 s1" "grows s s1" by auto
  from assms(2) l i in_batch_active[OF i(2)] show ?thesis by (simp add: resetState_sig_def)
qed

lemma exec_sig_batch_aux:
  "(list_all batch_aware_sig fn \<longrightarrow> in_batch s0 s \<longrightarrow>
      (\<forall>res s'. batch_sig fn s = (res, s') \<longrightarrow> in_batch s0 s' \<and> grows s s'))"
  "(batch_aware_sig c \<longrightarrow> in_batch s0 s \<longrightarrow>
      (\<forall>res s'. exec_sig c s = (res, s') \<longrightarrow> in_batch s0 s' \<and> grows s s'))"
  "(list_all batch_aware_sig cs \<longrightarrow> in_batch s0 s \<longrightarrow>
      (\<forall>res s'. exec_all_sig cs s = (res, s') \<longrightarrow> in_batch s0 s' \<and> grows s s'))"
proof (induction fn s and c s and cs s rule: batch_sig_exec_sig_exec_all_sig.induct)
  case (1 fn s)
  then show ?case by (auto simp: in_batch_active)
next
  case (2 n key v s)
  show ?case
  proof (intro impI allI)
    fix res s' assume inv: "in_batch s0 s" and e: "exec_sig (SSet n key v) s = (res, s')"
    obtain r1 s1 where r: "updateSlice n [(key, v)] s = (r1, s1)" by (cases "updateSlice n [(key, v)] s")
    from e r have "s' = s1" by (auto simp: set_sig_def dest: unit_result_cases)
    with updateSlice_batch[OF inv r] show "in_batch s0 s' \<and> grows s s'" by simp
  qed
next
  case (3 n partial s)
  show ?case
  proof (intro impI allI)
    fix res s' assume inv: "in_batch s0 s" and e: "exec_sig (SUpdate n partial) s = (res, s')"
    obtain r1 s1 where r: "updateSlice n partial s = (r1, s1)" by (cases "updateSlice n partial s")
    from e r have "s' = s1" by (auto simp: update_sig_def dest: unit_result_cases)
    with updateSlice_batch[OF inv r] show "in_batch s0 s' \<and> grows s s'" by simp
  qed
next
  case (4 data s)
  show ?case
  proof (intro impI allI)
    fix res s' assume inv: "in_batch s0 s" and e: "exec_sig (SRestore data) s = (res, s')"
    obtain r1 s1 where r: "restore_sig data s = (r1, s1)" by (cases "restore_sig data s")
    from e r have "s' = s1" by (auto dest: unit_result_cases)
    with restore_sig_batch[OF inv r] show "in_batch s0 s' \<and> grows s s'" by simp
  qed
next
  case (5 s)
  show ?case
  proof (intro impI allI)
    fix res s' assume inv: "in_batch s0 s" and e: "exec_sig SResetState s = (res, s')"
    obtain r1 s1 where r: "resetState_sig s = (r1, s1)" by (cases "resetState_sig s")
    from e r have "s' = s1" by (auto dest: unit_result_cases)
    with resetState_sig_batch[OF inv r] show "in_batch s0 s' \<and> grows s s'" by simp
  qed
next
  case (6 s)
  then show ?case by simp
next
  case (7 fn s)
  then show ?case by simp
next
  case (8 e s)
  then show ?case by (simp add: grows_refl)
next
  case (9 s)
  then show ?case by (simp add: grows_refl)
next
  case (10 c cs s)
  show ?case
  proof (intro impI allI)
    fix res s' assume aw: "list_all batch_aware_sig (c # cs)"
      and inv: "in_batch s0 s" and e: "exec_all_sig (c # cs) s = (res, s')"
    obtain r1 s1 where r: "exec_sig c s = (r1, s1)" by (cases "exec_sig c s")
    from 10(1) aw inv r have i1: "in_batch s0 s1" "grows s s1" by auto
    show "in_batch s0 s' \<and> grows s s'"
    proof (cases r1)
      case None
      with e r have e2: "exec_all_sig cs s1 = (res, s')" by simp
      from 10(2)[OF r[symmetric] None] aw i1(1) e2 have "in_batch s0 s'" "grows s1 s'" by auto
      with i1(2) show ?thesis using grows_trans by blast
    next
      case (Some err)
      with e r i1 show ?thesis by simp
    qed
  qed
qed

lemma exec_all_sig_batch:
  "list_all batch_aware_sig cs \<Longrightarrow> in_batch s0 s \<Longrightarrow> exec_all_sig cs s = (res, s') \<Longrightarrow>
     in_batch s0 s' \<and> grows s s'"
  using exec_sig_batch_aux(3) by blast

text \<open>The rollback.\<close>

lemma setState_fields [simp]:
  "events (setState n c s) = events s" "storeListeners (setState n c s) = storeListeners s"
  "batch_ctx (setState n c s) = batch_ctx s" "heap (setState n c s) = heap s"
  by (simp_all add: setState_def split: option.splits)

lemma setState_names [simp]: "map fst (slices (setState n c s)) = map fst (slices s)"
  by (auto simp: setState_def map_fst_update_present split: option.splits)

lemma setState_lookup:
  "map_of (slices (setState n c s)) m =
     (if m = n then map_option (\<lambda>h. h\<lparr>state := c\<rparr>) (map_of (slices s) n) else map_of (slices s) m)"
  by (auto simp: setState_def update_conv' split: option.splits)

lemma foldl_setState:
  "distinct (map fst snaps) \<Longrightarrow>
   events (foldl (\<lambda>t (n, c). setState n c t) s snaps) = events s \<and>
   storeListeners (foldl (\<lambda>t (n, c). setState n c t) s snaps) = storeListeners s \<and>
   map fst (slices (foldl (\<lambda>t (n, c). setState n c t) s snaps)) = map fst (slices s) \<and>
   (\<forall>m. map_of (slices (foldl (\<lambda>t (n, c). setState n c t) s snaps)) m =
      (case map_of snaps m of
         None \<Rightarrow> map_of (slices s) m
       | Some c \<Rightarrow> map_option (\<lambda>h. h\<lparr>state := c\<rparr>) (map_of (slices s) m)))"
proof (induction snaps arbitrary: s)
  case Nil
  then show ?case by simp
next
  case (Cons a snaps)
  obtain n c where a: "a = (n, c)" by (cases a)
  from Cons.prems a have d: "distinct (map fst snaps)" and nn: "map_of snaps n = None"
    by (auto simp: map_of_eq_None_iff)
  note ih = Cons.IH[OF d, of "setState n c s"]
  show ?case
    using ih nn by (auto simp: a setState_lookup split: option.splits)
qed

lemma rollback_restored:
  assumes inv: "in_batch s0 s1"
  shows "restored s0 (rollback s1)"
proof -
  from inv have d: "distinct (map fst (snapshots (batch_ctx s1)))" by (simp add: in_batch_def)
  note f = foldl_setState[OF d, of s1]
  have ev: "events (rollback s1) = events s0" using f in_batch_events[OF inv] by (simp add: rollback_def)
  have sl: "storeListeners (rollback s1) = storeListeners s0"
    using f inv by (simp add: rollback_def in_batch_def)
  have nm: "map fst (slices (rollback s1)) = map fst (slices s0)"
    using f inv by (simp add: rollback_def in_batch_def)
  have "\<exists>h'. map_of (slices (rollback s1)) n = Some h' \<and> same_handle h h'
                   \<and> shape_fields (state h') = shape_fields (state h)"
    if h: "map_of (slices s0) n = Some h" for n h
  proof -
    from in_batch_slice[OF inv h] obtain g where g: "map_of (slices s1) n = Some g" "same_handle h g"
        "snapshot_ok (map_of (snapshots (batch_ctx s1)) n) (state h) (state g)" by blast
    from f have l: "map_of (slices (rollback s1)) n =
      (case map_of (snapshots (batch_ctx s1)) n of
         None \<Rightarrow> map_of (slices s1) n
       | Some c \<Rightarrow> map_option (\<lambda>h. h\<lparr>state := c\<rparr>) (map_of (slices s1) n))"
      by (simp add: rollback_def)
    show ?thesis
    proof (cases "map_of (snapshots (batch_ctx s1)) n")
      case None
      with g l show ?thesis by (simp add: snapshot_ok_def)
    next
      case (Some c)
      with g l show ?thesis by (simp add: snapshot_ok_def)
    qed
  qed
  with ev sl nm show ?thesis by (simp add: restored_def rollback_def)
qed

text \<open>
  Claim C1, rollback atomicity of \<open>batch\<close>, as amended, for both stores. No batch is
  active, the body \<open>fn\<close> is batch-aware and, in the class-based store, calls only handles
  of registered slices (a handle of the Signal-based store looks its record up by name at
  every call); the middleware only maps or rejects a partial or raises, and does not call
  back into the store. When \<open>fn\<close> raises \<open>err\<close>, whatever it wrote before, \<open>batch(fn)\<close> raises the
  same \<open>err\<close> and leaves the store rolled back: no field, slice or store emitter has
  fired, the batch context is cleared, every slice keeps its handle, and the state of every
  slice is deep-equal to its state before the batch (a slice that was written gets the deep
  copy taken before its first write). A nested \<open>batch\<close> runs inline, so an error raised in
  it is rolled back by the outermost call.
\<close>

theorem batch_rollback:
  assumes "\<not> active (batch_ctx s)"
  shows "(list_all batch_aware fn \<and> list_all (uses_registered (map fst (slices s))) fn
          \<and> exec_all fn (begin_batch s) = (Some err, s1) \<longrightarrow>
            batch fn s = (Some err, rollback s1) \<and> restored s (rollback s1))
       \<and> (list_all batch_aware_sig gn \<and> exec_all_sig gn (begin_batch s) = (Some err', s2) \<longrightarrow>
            batch_sig gn s = (Some err', rollback s2) \<and> restored s (rollback s2))"
proof (intro conjI impI)
  assume a: "list_all batch_aware fn \<and> list_all (uses_registered (map fst (slices s))) fn
          \<and> exec_all fn (begin_batch s) = (Some err, s1)"
  with assms show "batch fn s = (Some err, rollback s1)" by (simp add: begin_batch_def)
  from a exec_all_batch[OF _ in_batch_begin[OF assms]] have "in_batch s s1" by blast
  then show "restored s (rollback s1)" by (rule rollback_restored)
next
  assume a: "list_all batch_aware_sig gn \<and> exec_all_sig gn (begin_batch s) = (Some err', s2)"
  with assms show "batch_sig gn s = (Some err', rollback s2)" by (simp add: begin_batch_def)
  from a exec_all_sig_batch[OF _ in_batch_begin[OF assms]] have "in_batch s s2" by blast
  then show "restored s (rollback s2)" by (rule rollback_restored)
qed

lemmas batch_defs = reset_def begin_batch_def unit_result_def restore_def notifySliceChanges_def pendingOf_def
  mergePending_def allKeys_def set_add_def spread_def handle_reset_def handle_batch_def rollback_def
  setState_def resetState_def commit_def

lemmas batch_sig_defs = reset_def begin_batch_def unit_result_def restore_sig_def notifySliceChange_def pendingOf_def
  mergePending_def allKeys_def set_add_def set_sig_def update_sig_def updateSlice_def rollback_def
  setState_def resetState_sig_def commit_sig_def emitField_def emitSlice_def emitOnChange_def
  getFullState_def

theorem batch_rollback_witness:
  "\<not> active (batch_ctx (walletStore []))
   \<and> list_all (uses_registered (map fst (slices (walletStore []))))
         [CSet ''wallet'' ''bet'' (VNum 99),
          CRestore [(''spin'', VObj 7 [(''remaining'', VNum 0)])],
          CBatch [CHandleReset ''wallet'', CThrow (JsError ''abort'')]]
   \<and> fst (exec_all [CSet ''wallet'' ''bet'' (VNum 99),
                      CRestore [(''spin'', VObj 7 [(''remaining'', VNum 0)])],
                      CBatch [CHandleReset ''wallet'', CThrow (JsError ''abort'')]]
             (begin_batch (walletStore []))) = Some (JsError ''abort'')
   \<and> state_of (snd (exec_all [CSet ''wallet'' ''bet'' (VNum 99),
                      CRestore [(''spin'', VObj 7 [(''remaining'', VNum 0)])],
                      CBatch [CHandleReset ''wallet'', CThrow (JsError ''abort'')]]
             (begin_batch (walletStore [])))) ''spin''
       = [(''remaining'', VNum 0), (''total'', VNum 10), (''multiplier'', VNum 1)]
   \<and> batch [CSet ''wallet'' ''bet'' (VNum 99),
             CRestore [(''spin'', VObj 7 [(''remaining'', VNum 0)])],
             CBatch [CHandleReset ''wallet'', CThrow (JsError ''abort'')]] (walletStore [])
       = (Some (JsError ''abort''), (walletStore [])\<lparr>heap := 104\<rparr>)
   \<and> fst (exec_all_sig [SSet ''wallet'' ''bet'' (VNum 99),
                      SRestore [(''spin'', VObj 7 [(''remaining'', VNum 0)])],
                      SBatch [SUpdate ''wallet'' [(''balance'', VNum 0)], SThrow (JsError ''abort'')]]
             (begin_batch (walletStore []))) = Some (JsError ''abort'')
   \<and> state_of (snd (exec_all_sig [SSet ''wallet'' ''bet'' (VNum 99),
                      SRestore [(''spin'', VObj 7 [(''remaining'', VNum 0)])],
                      SBatch [SUpdate ''wallet'' [(''balance'', VNum 0)], SThrow (JsError ''abort'')]]
             (begin_batch (walletStore [])))) ''spin''
       = [(''remaining'', VNum 0)]
   \<and> batch_sig [SSet ''wallet'' ''bet'' (VNum 99),
                 SRestore [(''spin'', VObj 7 [(''remaining'', VNum 0)])],
                 SBatch [SUpdate ''wallet'' [(''balance'', VNum 0)], SThrow (JsError ''abort'')]]
         (walletStore [])
       = (Some (JsError ''abort''), (walletStore [])\<lparr>heap := 104\<rparr>)"
proof -
  let ?fn = "[CSet ''wallet'' ''bet'' (VNum 99),
              CRestore [(''spin'', VObj 7 [(''remaining'', VNum 0)])],
              CBatch [CHandleReset ''wallet'', CThrow (JsError ''abort'')]]"
  let ?gn = "[SSet ''wallet'' ''bet'' (VNum 99),
              SRestore [(''spin'', VObj 7 [(''remaining'', VNum 0)])],
              SBatch [SUpdate ''wallet'' [(''balance'', VNum 0)], SThrow (JsError ''abort'')]]"
  let ?s1 = "snd (exec_all ?fn (begin_batch (walletStore [])))"
  let ?s2 = "snd (exec_all_sig ?gn (begin_batch (walletStore [])))"
  have na: "\<not> active (batch_ctx (walletStore []))" by (simp add: example_defs)
  have f1: "fst (exec_all ?fn (begin_batch (walletStore []))) = Some (JsError ''abort'')"
    by (simp add: example_defs store_defs batch_defs)
  have f2: "fst (exec_all_sig ?gn (begin_batch (walletStore []))) = Some (JsError ''abort'')"
    by (simp add: example_defs store_defs batch_sig_defs)
  have m1: "state_of ?s1 ''spin'' = [(''remaining'', VNum 0), (''total'', VNum 10), (''multiplier'', VNum 1)]"
    by (simp add: example_defs store_defs batch_defs state_of_def)
  have m2: "state_of ?s2 ''spin'' = [(''remaining'', VNum 0)]"
    by (simp add: example_defs store_defs batch_sig_defs state_of_def)
  have r1: "rollback ?s1 = (walletStore [])\<lparr>heap := 104\<rparr>"
    by (simp add: example_defs store_defs batch_defs)
  have r2: "rollback ?s2 = (walletStore [])\<lparr>heap := 104\<rparr>"
    by (simp add: example_defs store_defs batch_sig_defs)
  from f1 have e1: "exec_all ?fn (begin_batch (walletStore [])) = (Some (JsError ''abort''), ?s1)"
    by (simp add: prod_eq_iff)
  from f2 have e2: "exec_all_sig ?gn (begin_batch (walletStore [])) = (Some (JsError ''abort''), ?s2)"
    by (simp add: prod_eq_iff)
  have aw: "list_all batch_aware ?fn" "list_all batch_aware_sig ?gn" by simp_all
  have ur: "list_all (uses_registered (map fst (slices (walletStore [])))) ?fn"
    by (simp add: example_defs)
  from batch_rollback[OF na, of ?fn "JsError ''abort''" ?s1 ?gn "JsError ''abort''" ?s2] e1 e2 aw ur
  have "batch ?fn (walletStore []) = (Some (JsError ''abort''), rollback ?s1)
      \<and> batch_sig ?gn (walletStore []) = (Some (JsError ''abort''), rollback ?s2)"
    by blast
  with na ur f1 f2 m1 m2 r1 r2 show ?thesis by simp
qed

text \<open>
  The claim C1 as written fails for a body that calls the hard \<open>reset\<close>: it replaces the
  state of every slice without a snapshot, so the rollback restores only the slices that a
  batch-aware write had snapshotted before. Here \<open>spin\<close> is restored and \<open>wallet\<close>, which
  had left its defaults before the batch, stays reset. (It fails as well for a write through
  a handle kept after \<open>unregister\<close>, whose snapshot the rollback installs in the slice then
  registered under the same name; that handle is outside the model.)
\<close>

theorem batch_rollback_counterexample:
  "\<not> active (batch_ctx playedStore)
   \<and> state_of playedStore ''wallet''
       = [(''balance'', VNum 900), (''bet'', VNum 50), (''currency'', VStr ''USD'')]
   \<and> fst (batch [CSet ''spin'' ''remaining'' (VNum 4), CReset, CThrow (JsError ''abort'')] playedStore)
       = Some (JsError ''abort'')
   \<and> state_of (snd (batch [CSet ''spin'' ''remaining'' (VNum 4), CReset, CThrow (JsError ''abort'')]
                    playedStore)) ''wallet''
       = [(''balance'', VNum 1000), (''bet'', VNum 1), (''currency'', VStr ''USD'')]
   \<and> fst (batch_sig [SSet ''spin'' ''remaining'' (VNum 4), SReset, SThrow (JsError ''abort'')] playedStore)
       = Some (JsError ''abort'')
   \<and> state_of (snd (batch_sig [SSet ''spin'' ''remaining'' (VNum 4), SReset, SThrow (JsError ''abort'')]
                    playedStore)) ''wallet''
       = [(''balance'', VNum 1000), (''bet'', VNum 1), (''currency'', VStr ''USD'')]"
  by (simp add: playedStore_def example_defs store_defs batch_sig_defs batch_defs state_of_def)

section \<open>Coalescing of notifications\<close>

lemma fires_append [simp]: "fires (a @ b) = fires a @ fires b"
  by (induction a rule: fires.induct) auto

lemma fires_invokes [simp]: "fires (invokes ls p) = []"
  by (induction ls) (auto simp: invokes_def)

lemma flushFields_events:
  "flushFields n h flds ev = (None, ev') \<Longrightarrow> \<exists>E. ev' = ev @ E \<and> fires E = fieldFires n flds"
proof (induction flds arbitrary: ev)
  case Nil
  then show ?case by (simp add: fieldFires_def)
next
  case (Cons a flds)
  obtain key prev v where a: "a = (key, prev, v)" by (cases a)
  obtain r ev1 where f: "flushField n h key v prev ev = (r, ev1)"
    by (cases "flushField n h key v prev ev")
  with Cons.prems a have r: "r = None" and rest: "flushFields n h flds ev1 = (None, ev')"
    by (auto split: option.splits)
  from flushField_None[OF f[unfolded r]] obtain E1 where
    e1: "ev1 = ev @ E1" "fires E1 = [(FieldEmitter n key, FieldChange v prev)]" by simp
  from Cons.IH[OF rest] obtain E2 where e2: "ev' = ev1 @ E2" "fires E2 = fieldFires n flds" by blast
  from e1 e2 a have "ev' = ev @ (E1 @ E2) \<and> fires (E1 @ E2) = fieldFires n (a # flds)"
    by (simp add: fieldFires_def)
  then show ?case by blast
qed

lemma flushFields_quiet:
  "(\<forall>key. quiet (listenersOf h key)) \<Longrightarrow> \<exists>ev'. flushFields n h flds ev = (None, ev')"
proof (induction flds arbitrary: ev)
  case Nil
  then show ?case by simp
next
  case (Cons a flds)
  obtain key prev v where a: "a = (key, prev, v)" by (cases a)
  from Cons.prems have q: "quiet (listenersOf h key)" by simp
  have "\<exists>ev1. flushField n h key v prev ev = (None, ev1)"
    using callListeners_quiet[OF q] by (auto simp: flushField_def listenersOf_def Let_def split: option.splits)
  then obtain ev1 where "flushField n h key v prev ev = (None, ev1)" by blast
  with Cons.IH[OF Cons.prems, of ev1] a show ?case by simp
qed

lemma flushPending_events:
  "\<forall>n \<in> fst ` set pend. map_of (slices s) n \<noteq> None \<Longrightarrow> flushPending pend s = (None, s') \<Longrightarrow>
     \<exists>E. s' = s\<lparr>events := events s @ E\<rparr>
        \<and> fires E = concat (map (\<lambda>(n, flds). fieldFires n flds) pend)"
proof (induction pend arbitrary: s)
  case Nil
  then show ?case by (auto intro!: exI[of _ "[]"])
next
  case (Cons a pend)
  obtain n flds where a: "a = (n, flds)" by (cases a)
  from Cons.prems(1) a obtain h where h: "map_of (slices s) n = Some h" by auto
  obtain r ev1 where f: "flushFields n h flds (events s) = (r, ev1)"
    by (cases "flushFields n h flds (events s)")
  with Cons.prems(2) a h have r: "r = None"
    and rest: "flushPending pend (s\<lparr>events := ev1\<rparr>) = (None, s')"
    by (auto split: option.splits)
  from flushFields_events[OF f[unfolded r]] obtain E1 where
    e1: "ev1 = events s @ E1" "fires E1 = fieldFires n flds" by blast
  have reg: "\<forall>n \<in> fst ` set pend. map_of (slices (s\<lparr>events := ev1\<rparr>)) n \<noteq> None"
    using Cons.prems(1) by simp
  from Cons.IH[OF reg rest] obtain E2 where
    e2: "s' = s\<lparr>events := ev1 @ E2\<rparr>" "fires E2 = concat (map (\<lambda>(n, flds). fieldFires n flds) pend)"
    by auto
  from e1 e2 a have "s' = s\<lparr>events := events s @ (E1 @ E2)\<rparr>
      \<and> fires (E1 @ E2) = concat (map (\<lambda>(n, flds). fieldFires n flds) (a # pend))"
    by simp
  then show ?case by blast
qed

lemma state_of_events [simp]: "state_of (s\<lparr>events := ev\<rparr>) n = state_of s n"
  by (simp add: state_of_def)

lemma flushDirty_events:
  "\<forall>n \<in> set ns. map_of (slices s) n \<noteq> None \<Longrightarrow> flushDirty ns s = (None, s') \<Longrightarrow>
     \<exists>E. s' = s\<lparr>events := events s @ E\<rparr>
        \<and> fires E = map (\<lambda>n. (SliceEmitter n, SliceState (state_of s n))) ns"
proof (induction ns arbitrary: s)
  case Nil
  then show ?case by (auto intro!: exI[of _ "[]"])
next
  case (Cons n ns)
  from Cons.prems(1) obtain h where h: "map_of (slices s) n = Some h" by auto
  obtain r ev1 where f: "flushSlice n h (events s) = (r, ev1)"
    by (cases "flushSlice n h (events s)")
  with Cons.prems(2) h have r: "r = None"
    and rest: "flushDirty ns (s\<lparr>events := ev1\<rparr>) = (None, s')"
    by (auto split: option.splits)
  from flushSlice_None[OF f[unfolded r]] h obtain E1 where
    e1: "ev1 = events s @ E1" "fires E1 = [(SliceEmitter n, SliceState (state_of s n))]"
    by (simp add: state_of_def)
  have reg: "\<forall>n \<in> set ns. map_of (slices (s\<lparr>events := ev1\<rparr>)) n \<noteq> None"
    using Cons.prems(1) by simp
  from Cons.IH[OF reg rest] obtain E2 where
    e2: "s' = s\<lparr>events := ev1 @ E2\<rparr>"
        "fires E2 = map (\<lambda>n. (SliceEmitter n, SliceState (state_of s n))) ns"
    by auto
  from e1 e2 have "s' = s\<lparr>events := events s @ (E1 @ E2)\<rparr>
      \<and> fires (E1 @ E2) = map (\<lambda>n. (SliceEmitter n, SliceState (state_of s n))) (n # ns)"
    by simp
  then show ?case by blast
qed

lemma notifyStoreListeners_events:
  "notifyStoreListeners s = (None, s') \<Longrightarrow>
     \<exists>E a. s' = s\<lparr>heap := a, events := events s @ E\<rparr>
        \<and> fires E = [(StoreEmitter, StoreState (fst (getState s)))]"
proof -
  assume "notifyStoreListeners s = (None, s')"
  from notifyStoreListeners_None[OF this]
  have "s' = s\<lparr>heap := snd (cloneSlices (heap s) (slices s)),
          events := events s @ (Fire StoreEmitter (StoreState (fst (cloneSlices (heap s) (slices s))))
                      # invokes (storeListeners s) (StoreState (fst (cloneSlices (heap s) (slices s)))))\<rparr>
     \<and> fires (Fire StoreEmitter (StoreState (fst (cloneSlices (heap s) (slices s))))
                      # invokes (storeListeners s) (StoreState (fst (cloneSlices (heap s) (slices s)))))
         = [(StoreEmitter, StoreState (fst (getState s)))]"
    by (simp add: getState_def split: prod.splits)
  then show ?thesis by blast
qed

lemma getState_events [simp]: "fst (getState (s\<lparr>events := ev\<rparr>)) = fst (getState s)"
  by (simp add: getState_def split: prod.splits)

lemma getState_active [simp]:
  "fst (getState (s\<lparr>batch_ctx := b\<rparr>)) = fst (getState s)"
  by (simp add: getState_def split: prod.splits)

lemma state_of_batch_ctx [simp]: "state_of (s\<lparr>batch_ctx := b\<rparr>) n = state_of s n"
  by (simp add: state_of_def)

lemma commit_events:
  assumes reg: "set (dirtySlices (batch_ctx s)) \<subseteq> fst ` set (slices s)"
    and pd: "fst ` set (pendingFields (batch_ctx s)) = set (dirtySlices (batch_ctx s))"
    and c: "commit s = (None, s')"
  shows "\<exists>E a. s' = s\<lparr>events := events s @ E, heap := a, batch_ctx := emptyBatch\<rparr>
            \<and> fires E = coalesced s"
proof -
  let ?s1 = "s\<lparr>batch_ctx := (batch_ctx s)\<lparr>active := False\<rparr>\<rparr>"
  have regd: "\<forall>n \<in> set (dirtySlices (batch_ctx s)). map_of (slices s) n \<noteq> None"
    using reg by (auto simp: map_of_eq_None_iff)
  then have regp: "\<forall>n \<in> fst ` set (pendingFields (batch_ctx s)). map_of (slices s) n \<noteq> None"
    using pd by simp
  obtain r2 s2 where f2: "flushPending (pendingFields (batch_ctx s)) ?s1 = (r2, s2)"
    by (cases "flushPending (pendingFields (batch_ctx s)) ?s1")
  with c have r2: "r2 = None" by (auto simp: commit_def Let_def split: option.splits)
  from regp have "\<forall>n \<in> fst ` set (pendingFields (batch_ctx s)). map_of (slices ?s1) n \<noteq> None" by simp
  from flushPending_events[OF this f2[unfolded r2]] obtain E1 where
    e1: "s2 = ?s1\<lparr>events := events s @ E1\<rparr>"
        "fires E1 = concat (map (\<lambda>(n, flds). fieldFires n flds) (pendingFields (batch_ctx s)))"
    by auto
  show ?thesis
  proof (cases "dirtySlices (batch_ctx s) = []")
    case True
    with c f2 r2 e1
    have "s' = s\<lparr>events := events s @ E1, heap := heap s, batch_ctx := emptyBatch\<rparr>"
      by (auto simp: commit_def Let_def)
    moreover have "fires E1 = coalesced s" using e1 True by (simp add: coalesced_def)
    ultimately show ?thesis by blast
  next
    case False
    obtain r3 s3 where f3: "flushDirty (dirtySlices (batch_ctx s)) s2 = (r3, s3)"
      by (cases "flushDirty (dirtySlices (batch_ctx s)) s2")
    with c f2 r2 e1 have r3: "r3 = None" by (auto simp: commit_def Let_def split: option.splits)
    from regd e1 have "\<forall>n \<in> set (dirtySlices (batch_ctx s)). map_of (slices s2) n \<noteq> None" by simp
    from flushDirty_events[OF this f3[unfolded r3]] e1 obtain E2 where
      e2: "s3 = ?s1\<lparr>events := events s @ E1 @ E2\<rparr>"
          "fires E2 = map (\<lambda>n. (SliceEmitter n, SliceState (state_of s n))) (dirtySlices (batch_ctx s))"
      by auto
    obtain r4 s4 where f4: "notifyStoreListeners s3 = (r4, s4)" by (cases "notifyStoreListeners s3")
    with c f2 r2 e1 f3 r3 e2 False have r4: "r4 = None" and s': "s' = s4\<lparr>batch_ctx := emptyBatch\<rparr>"
      by (auto simp: commit_def Let_def split: option.splits)
    from notifyStoreListeners_events[OF f4[unfolded r4]] e2 obtain E3 a where
      e3: "s4 = ?s1\<lparr>heap := a, events := events s @ E1 @ E2 @ E3\<rparr>"
          "fires E3 = [(StoreEmitter, StoreState (fst (getState s)))]"
      by auto
    from s' e3 have "s' = s\<lparr>events := events s @ (E1 @ E2 @ E3), heap := a, batch_ctx := emptyBatch\<rparr>"
      by simp
    moreover have "fires (E1 @ E2 @ E3) = coalesced s"
      using e1 e2 e3 False by (simp add: coalesced_def)
    ultimately show ?thesis by blast
  qed
qed

lemma exec_all_append:
  "exec_all (pre @ post) s =
     (case exec_all pre s of (Some e, s') \<Rightarrow> (Some e, s') | (None, s') \<Rightarrow> exec_all post s')"
  by (induction pre arbitrary: s) (auto split: prod.splits option.splits)

lemma exec_all_sig_append:
  "exec_all_sig (pre @ post) s =
     (case exec_all_sig pre s of (Some e, s') \<Rightarrow> (Some e, s') | (None, s') \<Rightarrow> exec_all_sig post s')"
  by (induction pre arbitrary: s) (auto split: prod.splits option.splits)

lemma exec_batch:
  "batch_aware c \<Longrightarrow> in_batch s0 s \<Longrightarrow> exec c s = (res, s') \<Longrightarrow> in_batch s0 s' \<and> grows s s'"
  using exec_batch_aux(2) by blast

lemma exec_sig_batch:
  "batch_aware_sig c \<Longrightarrow> in_batch s0 s \<Longrightarrow> exec_sig c s = (res, s') \<Longrightarrow> in_batch s0 s' \<and> grows s s'"
  using exec_sig_batch_aux(2) by blast

text \<open>What the invariant says about the pending diffs.\<close>

lemma in_batch_unregistered:
  assumes inv: "in_batch s0 s" and n: "map_of (slices s) n = None"
  shows "pendingOf n (batch_ctx s) = []" "map_of (slices s0) n = None"
proof -
  from n have "n \<notin> fst ` set (slices s)" by (simp add: map_of_eq_None_iff)
  moreover have mf: "map fst (slices s) = map fst (slices s0)" using inv unfolding in_batch_def by blast
  ultimately have nn: "n \<notin> fst ` set (slices s0)" by (metis list.set_map)
  then show "map_of (slices s0) n = None" by (simp add: map_of_eq_None_iff)
  have "set (map fst (pendingFields (batch_ctx s))) \<subseteq> set (map fst (slices s0))"
    using inv unfolding in_batch_def by blast
  with nn have "n \<notin> fst ` set (pendingFields (batch_ctx s))" by auto
  then have "map_of (pendingFields (batch_ctx s)) n = None" by (simp add: map_of_eq_None_iff)
  then show "pendingOf n (batch_ctx s) = []" by (simp add: pendingOf_def)
qed

lemma in_batch_pending_ok:
  assumes inv: "in_batch s0 s"
  shows "pending_ok (pendingOf n (batch_ctx s)) (state_of s0 n) (state_of s n)"
proof (cases "map_of (slices s) n")
  case None
  from in_batch_unregistered[OF inv None] None show ?thesis
    by (simp add: state_of_def pending_ok_def)
next
  case (Some h)
  from in_batch_registered[OF inv Some] Some show ?thesis by (auto simp: state_of_def)
qed

lemma in_batch_pending:
  assumes inv: "in_batch s0 s" and p: "map_of (pendingOf n (batch_ctx s)) key = Some (prev, v)"
  shows "object_is prev (field (state_of s0 n) key) \<and> object_is v (field (state_of s n) key)"
  using in_batch_pending_ok[OF inv, of n] p by (auto simp: pending_ok_def dest: spec[of _ key])

lemma in_batch_not_pending:
  assumes inv: "in_batch s0 s" and p: "key \<notin> fst ` set (pendingOf n (batch_ctx s))"
  shows "object_is (field (state_of s n) key) (field (state_of s0 n) key)"
proof -
  from p have "map_of (pendingOf n (batch_ctx s)) key = None" by (simp add: map_of_eq_None_iff)
  with in_batch_pending_ok[OF inv, of n] show ?thesis
    by (auto simp: pending_ok_def dest: spec[of _ key])
qed

lemma pending_dirty:
  assumes inv: "in_batch s0 s" and p: "key \<in> fst ` set (pendingOf n (batch_ctx s))"
  shows "n \<in> set (dirtySlices (batch_ctx s))"
proof -
  have "map_of (pendingFields (batch_ctx s)) n \<noteq> None"
  proof
    assume "map_of (pendingFields (batch_ctx s)) n = None"
    then have "pendingOf n (batch_ctx s) = []" by (simp add: pendingOf_def)
    with p show False by simp
  qed
  then have "n \<in> fst ` set (pendingFields (batch_ctx s))" by (simp add: map_of_eq_None_iff)
  moreover have "set (dirtySlices (batch_ctx s)) = set (map fst (pendingFields (batch_ctx s)))"
    using inv unfolding in_batch_def by blast
  ultimately show ?thesis by simp
qed

text \<open>A step of the batch that changes a field leaves a pending diff for it.\<close>

lemma changed_pending:
  assumes i: "in_batch s0 sa" and i': "in_batch s0 sb" and g: "grows sa sb"
    and ch: "\<not> object_is (field (state_of sa n) key) (field (state_of sb n) key)"
  shows "key \<in> fst ` set (pendingOf n (batch_ctx sb))"
proof (rule ccontr)
  assume np: "key \<notin> fst ` set (pendingOf n (batch_ctx sb))"
  with g have "key \<notin> fst ` set (pendingOf n (batch_ctx sa))" by (auto simp: grows_def)
  from in_batch_not_pending[OF i this] in_batch_not_pending[OF i' np]
  have "object_is (field (state_of sa n) key) (field (state_of sb n) key)"
    using object_is_sym object_is_trans by blast
  with ch show False by simp
qed

lemma grows_pending:
  "grows s s' \<Longrightarrow> key \<in> fst ` set (pendingOf n (batch_ctx s)) \<Longrightarrow>
     key \<in> fst ` set (pendingOf n (batch_ctx s'))"
  by (auto simp: grows_def)

text \<open>The merge of a field write into the pending map.\<close>

lemma set_field_merge:
  assumes inv: "in_batch s0 sa" and r: "set_field n key v sa = (res, sb)"
    and ch: "\<not> object_is (field (state_of sa n) key) (field (state_of sb n) key)"
  shows "map_of (pendingOf n (batch_ctx sb)) key =
           Some (case map_of (pendingOf n (batch_ctx sa)) key of
                   Some (p0, _) \<Rightarrow> p0 | None \<Rightarrow> field (state_of sa n) key,
                 field (state_of sb n) key)"
proof (cases "map_of (slices sa) n")
  case None
  with r ch show ?thesis by (simp add: set_field_def)
next
  case (Some h)
  from ch have ne: "sb \<noteq> sa" by auto
  have act1: "active (batch_ctx (takeSnapshot n (state h) sa))"
    using in_batch_takeSnapshot(7)[OF inv Some] .
  have sl: "slices (takeSnapshot n (state h) sa) = slices sa"
    using in_batch_takeSnapshot(2)[OF inv Some] .
  from ne r Some obtain inc where
    sb: "sb = (let s1 = takeSnapshot n (state h) sa;
                       s2 = s1\<lparr>slices := AList.update n (h\<lparr>state := AList.update key (field inc key) (state h)\<rparr>) (slices s1)\<rparr>
                   in s2\<lparr>batch_ctx := (batch_ctx s2)
                          \<lparr>dirtySlices := set_add n (dirtySlices (batch_ctx s2)),
                           pendingFields :=
                             AList.update n
                               (mergePending key (field (state h) key) (field inc key) (pendingOf n (batch_ctx s2)))
                               (pendingFields (batch_ctx s2))\<rparr>\<rparr>)"
    using act1
    by (auto simp: set_field_def Let_def split: if_splits sum.splits option.splits)
  have p: "pendingOf n (batch_ctx sb) =
      mergePending key (field (state h) key) (field inc key) (pendingOf n (batch_ctx sa))"
    unfolding sb by (simp add: Let_def)
  have st: "state_of sb n = AList.update key (field inc key) (state h)"
    unfolding sb by (simp add: Let_def state_of_def update_conv')
  from p st Some show ?thesis
    by (simp add: map_of_mergePending state_of_def split: option.splits)
qed

text \<open>Every emitter is flushed at most once.\<close>

lemma fieldFires_emitters: "map fst (fieldFires n flds) = map (FieldEmitter n) (map fst flds)"
  by (induction flds) (auto simp: fieldFires_def)

lemma pending_emitters_eq:
  "map fst (concat (map (\<lambda>(n, flds). fieldFires n flds) pend))
     = concat (map (\<lambda>(n, flds). map (FieldEmitter n) (map fst flds)) pend)"
  by (induction pend) (auto simp: fieldFires_emitters)

lemma pending_emitters:
  "e \<in> set (concat (map (\<lambda>(n, flds). map (FieldEmitter n) (map fst flds)) pend)) \<Longrightarrow>
     \<exists>n key. e = FieldEmitter n key \<and> n \<in> fst ` set pend"
  by (induction pend) force+

lemma distinct_pending_emitters:
  "distinct (map fst pend) \<Longrightarrow> \<forall>(n, flds) \<in> set pend. distinct (map fst flds) \<Longrightarrow>
     distinct (concat (map (\<lambda>(n, flds). map (FieldEmitter n) (map fst flds)) pend))"
proof (induction pend)
  case Nil
  then show ?case by simp
next
  case (Cons a pend)
  obtain n flds where a: "a = (n, flds)" by (cases a)
  from Cons.prems a have d: "distinct (map fst flds)" and nn: "n \<notin> fst ` set pend" by auto
  have 1: "distinct (map (FieldEmitter n) (map fst flds))"
    using d by (simp add: distinct_map inj_on_def)
  have 2: "distinct (concat (map (\<lambda>(n, flds). map (FieldEmitter n) (map fst flds)) pend))"
    using Cons by auto
  have 3: "set (map (FieldEmitter n) (map fst flds)) \<inter>
           set (concat (map (\<lambda>(n, flds). map (FieldEmitter n) (map fst flds)) pend)) = {}"
  proof (rule ccontr)
    assume "\<not> ?thesis"
    then obtain e where e: "e \<in> set (map (FieldEmitter n) (map fst flds))"
      "e \<in> set (concat (map (\<lambda>(n, flds). map (FieldEmitter n) (map fst flds)) pend))" by blast
    from pending_emitters[OF e(2)] obtain m key where "e = FieldEmitter m key" "m \<in> fst ` set pend"
      by blast
    with e(1) nn show False by auto
  qed
  from 1 2 3 a show ?case by simp
qed

lemma in_batch_pending_distinct:
  assumes inv: "in_batch s0 s"
  shows "\<forall>(n, flds) \<in> set (pendingFields (batch_ctx s)). distinct (map fst flds)"
proof (clarify)
  fix n flds assume m: "(n, flds) \<in> set (pendingFields (batch_ctx s))"
  have d: "distinct (map fst (pendingFields (batch_ctx s)))" using inv unfolding in_batch_def by blast
  with m have mo: "map_of (pendingFields (batch_ctx s)) n = Some flds" by simp
  then have po: "pendingOf n (batch_ctx s) = flds" by (simp add: pendingOf_def)
  show "distinct (map fst flds)"
  proof (cases "map_of (slices s) n")
    case None
    from in_batch_unregistered(1)[OF inv None] po show ?thesis by simp
  next
    case (Some h)
    from in_batch_registered[OF inv Some] po show ?thesis by auto
  qed
qed

lemma distinct_coalesced:
  assumes inv: "in_batch s0 s"
  shows "distinct (map fst (coalesced s))"
proof -
  let ?F = "concat (map (\<lambda>(n, flds). map (FieldEmitter n) (map fst flds)) (pendingFields (batch_ctx s)))"
  have d1: "distinct (map fst (pendingFields (batch_ctx s)))"
    and d2: "distinct (dirtySlices (batch_ctx s))" using inv unfolding in_batch_def by blast+
  note a = distinct_pending_emitters[OF d1 in_batch_pending_distinct[OF inv]]
  have b: "distinct (map SliceEmitter (dirtySlices (batch_ctx s)))"
    using d2 by (simp add: distinct_map inj_on_def)
  have c: "set ?F \<inter> (set (map SliceEmitter (dirtySlices (batch_ctx s))) \<union> {StoreEmitter}) = {}"
  proof (rule ccontr)
    assume "\<not> ?thesis"
    then obtain e where e: "e \<in> set ?F"
      "e \<in> set (map SliceEmitter (dirtySlices (batch_ctx s))) \<union> {StoreEmitter}" by blast
    from pending_emitters[OF e(1)] obtain m key where "e = FieldEmitter m key" by blast
    with e(2) show False by auto
  qed
  have e: "map (fst \<circ> (\<lambda>n. (SliceEmitter n, SliceState (state_of s n)))) (dirtySlices (batch_ctx s))
         = map SliceEmitter (dirtySlices (batch_ctx s))" by simp
  have m: "map fst (coalesced s) = ?F @ map SliceEmitter (dirtySlices (batch_ctx s))
             @ (if dirtySlices (batch_ctx s) = [] then [] else [StoreEmitter])"
    unfolding coalesced_def by (simp add: pending_emitters_eq e)
  from a b c show ?thesis unfolding m by auto
qed

text \<open>The flush returns when no listener raises.\<close>

lemma flushPending_quiet:
  "\<forall>n h. map_of (slices s) n = Some h \<longrightarrow> (\<forall>key. quiet (listenersOf h key)) \<Longrightarrow>
     \<exists>s'. flushPending pend s = (None, s')"
proof (induction pend arbitrary: s)
  case Nil
  then show ?case by simp
next
  case (Cons a pend)
  obtain n flds where a: "a = (n, flds)" by (cases a)
  show ?case
  proof (cases "map_of (slices s) n")
    case None
    with Cons a show ?thesis by simp
  next
    case (Some h)
    with Cons.prems have "\<forall>key. quiet (listenersOf h key)" by blast
    from flushFields_quiet[OF this, of n flds "events s"] obtain ev where
      f: "flushFields n h flds (events s) = (None, ev)" by blast
    have "\<forall>n h. map_of (slices (s\<lparr>events := ev\<rparr>)) n = Some h \<longrightarrow> (\<forall>key. quiet (listenersOf h key))"
      using Cons.prems by simp
    from Cons.IH[OF this] a Some f show ?thesis by simp
  qed
qed

lemma flushDirty_quiet:
  "\<forall>n h. map_of (slices s) n = Some h \<longrightarrow> quiet (sliceListeners h) \<Longrightarrow>
     \<exists>s'. flushDirty ns s = (None, s')"
proof (induction ns arbitrary: s)
  case Nil
  then show ?case by simp
next
  case (Cons n ns)
  show ?case
  proof (cases "map_of (slices s) n")
    case None
    with Cons show ?thesis by simp
  next
    case (Some h)
    with Cons.prems have q: "quiet (sliceListeners h)" by blast
    have f: "flushSlice n h (events s) = (None, events s @ Fire (SliceEmitter n) (SliceState (state h))
                # invokes (sliceListeners h) (SliceState (state h)))"
      using callListeners_quiet[OF q] by (simp add: flushSlice_def)
    have "\<forall>m g. map_of (slices (s\<lparr>events := events s @ Fire (SliceEmitter n) (SliceState (state h))
                # invokes (sliceListeners h) (SliceState (state h))\<rparr>)) m = Some g \<longrightarrow> quiet (sliceListeners g)"
      using Cons.prems by simp
    from Cons.IH[OF this] Some f show ?thesis by simp
  qed
qed

lemma flushPending_frame:
  "flushPending pend s = (r, s') \<Longrightarrow>
     slices s' = slices s \<and> storeListeners s' = storeListeners s \<and> batch_ctx s' = batch_ctx s"
proof (induction pend arbitrary: s)
  case Nil
  then show ?case by simp
next
  case (Cons a pend)
  obtain n flds where a: "a = (n, flds)" by (cases a)
  show ?case
  proof (cases "map_of (slices s) n")
    case None
    with Cons a show ?thesis by simp
  next
    case (Some h)
    obtain r1 ev where f: "flushFields n h flds (events s) = (r1, ev)"
      by (cases "flushFields n h flds (events s)")
    show ?thesis
    proof (cases r1)
      case None
      with Cons.prems a Some f have "flushPending pend (s\<lparr>events := ev\<rparr>) = (r, s')" by simp
      from Cons.IH[OF this] show ?thesis by simp
    next
      case (Some e)
      with Cons.prems a \<open>map_of (slices s) n = Some h\<close> f show ?thesis by auto
    qed
  qed
qed

lemma flushDirty_frame:
  "flushDirty ns s = (r, s') \<Longrightarrow>
     slices s' = slices s \<and> storeListeners s' = storeListeners s \<and> batch_ctx s' = batch_ctx s"
proof (induction ns arbitrary: s)
  case Nil
  then show ?case by simp
next
  case (Cons n ns)
  show ?case
  proof (cases "map_of (slices s) n")
    case None
    with Cons show ?thesis by simp
  next
    case (Some h)
    obtain r1 ev where f: "flushSlice n h (events s) = (r1, ev)"
      by (cases "flushSlice n h (events s)")
    show ?thesis
    proof (cases r1)
      case None
      with Cons.prems Some f have "flushDirty ns (s\<lparr>events := ev\<rparr>) = (r, s')" by simp
      from Cons.IH[OF this] show ?thesis by simp
    next
      case (Some e)
      with Cons.prems \<open>map_of (slices s) n = Some h\<close> f show ?thesis by auto
    qed
  qed
qed

lemma notifyStoreListeners_quiet:
  "quiet (storeListeners s) \<Longrightarrow> \<exists>s'. notifyStoreListeners s = (None, s')"
  using callListeners_quiet[of "storeListeners s"]
  by (auto simp: notifyStoreListeners_def getState_def split: prod.splits)

lemma commit_quiet:
  assumes q: "quiet (storeListeners s)"
    and ql: "\<forall>n h. map_of (slices s) n = Some h \<longrightarrow>
               quiet (sliceListeners h) \<and> (\<forall>key. quiet (listenersOf h key))"
  shows "\<exists>s'. commit s = (None, s')"
proof -
  let ?s1 = "s\<lparr>batch_ctx := (batch_ctx s)\<lparr>active := False\<rparr>\<rparr>"
  have "\<forall>n h. map_of (slices ?s1) n = Some h \<longrightarrow> (\<forall>key. quiet (listenersOf h key))"
    using ql by simp
  from flushPending_quiet[OF this] obtain s2 where
    f2: "flushPending (pendingFields (batch_ctx s)) ?s1 = (None, s2)" by blast
  note fr2 = flushPending_frame[OF f2]
  have "\<forall>n h. map_of (slices s2) n = Some h \<longrightarrow> quiet (sliceListeners h)"
    using ql fr2 by simp
  from flushDirty_quiet[OF this] obtain s3 where
    f3: "flushDirty (dirtySlices (batch_ctx s)) s2 = (None, s3)" by blast
  note fr3 = flushDirty_frame[OF f3]
  have "quiet (storeListeners s3)" using q fr2 fr3 by simp
  from notifyStoreListeners_quiet[OF this] obtain s4 where
    f4: "notifyStoreListeners s3 = (None, s4)" by blast
  from f2 f3 f4 fr2 fr3 show ?thesis
    by (auto simp: commit_def Let_def)
qed

lemma in_batch_quiet:
  assumes inv: "in_batch s0 s" and q: "all_quiet s0"
  shows "quiet (storeListeners s)"
    "\<forall>n h. map_of (slices s) n = Some h \<longrightarrow>
               quiet (sliceListeners h) \<and> (\<forall>key. quiet (listenersOf h key))"
proof -
  show "quiet (storeListeners s)" using inv q by (simp add: in_batch_def all_quiet_def)
  show "\<forall>n h. map_of (slices s) n = Some h \<longrightarrow>
               quiet (sliceListeners h) \<and> (\<forall>key. quiet (listenersOf h key))"
  proof (intro allI impI)
    fix n h assume h: "map_of (slices s) n = Some h"
    from in_batch_registered[OF inv h] obtain h0 where
      h0: "map_of (slices s0) n = Some h0" "same_handle h0 h" by blast
    from q h0(1) have "quiet (sliceListeners h0) \<and> (\<forall>key. quiet (listenersOf h0 key))"
      by (simp add: all_quiet_def)
    with h0(2) show "quiet (sliceListeners h) \<and> (\<forall>key. quiet (listenersOf h key))"
      by (simp add: same_handle_def listenersOf_def)
  qed
qed

lemma in_batch_commit:
  assumes inv: "in_batch s0 s1" and c: "commit s1 = (None, s')"
  shows "notified s0 s' = coalesced s1 \<and> batch_ctx s' = emptyBatch \<and> slices s' = slices s1"
proof -
  have reg: "set (dirtySlices (batch_ctx s1)) \<subseteq> fst ` set (slices s1)"
  proof -
    have "set (dirtySlices (batch_ctx s1)) \<subseteq> set (map fst (slices s0))"
      and "map fst (slices s1) = map fst (slices s0)"
      using inv unfolding in_batch_def by blast+
    then show ?thesis by (metis list.set_map)
  qed
  have pd: "fst ` set (pendingFields (batch_ctx s1)) = set (dirtySlices (batch_ctx s1))"
  proof -
    have "set (dirtySlices (batch_ctx s1)) = set (map fst (pendingFields (batch_ctx s1)))"
      using inv unfolding in_batch_def by blast
    then show ?thesis by simp
  qed
  from commit_events[OF reg pd c] obtain E a where
    e: "s' = s1\<lparr>events := events s1 @ E, heap := a, batch_ctx := emptyBatch\<rparr>" "fires E = coalesced s1"
    by blast
  from e in_batch_events[OF inv] show ?thesis by (simp add: notified_def)
qed

text \<open>
  Claim C8, batch coalescing in the class-based store, as amended. No batch is active and
  the body \<open>fn\<close>, batch-aware and calling only handles of registered slices, returns
  normally in the store \<open>s1\<close>. Then:

  \<^item> no emitter fired while the body ran;
  \<^item> whenever the flush returns, \<open>batch(fn)\<close> returns, the context is cleared, and the
    emitters that fired are exactly the coalesced ones: one per pending field diff with
    \<open>(value, prev)\<close>, then one per dirty slice, then the store once when a slice is dirty;
  \<^item> the flush returns when no listener raises;
  \<^item> no emitter is in that list twice;
  \<^item> the \<open>prev\<close> of a pending diff is the pre-batch value of the field and its \<open>value\<close> is
    the current one;
  \<^item> without a dirty slice nothing is notified;
  \<^item> a \<open>set\<close> of the body that changes a field leaves a pending diff that keeps the
    \<open>prev\<close> of the diff already pending (the value before the write when there is none)
    and takes the new value, and the field is still pending, and its slice dirty, when the
    body ends.
\<close>

theorem batch_coalescing:
  assumes na: "\<not> active (batch_ctx s)" and aw: "list_all batch_aware fn"
    and ur: "list_all (uses_registered (map fst (slices s))) fn"
    and body: "exec_all fn (begin_batch s) = (None, s1)"
  shows "events s1 = events s
       \<and> (\<forall>s'. commit s1 = (None, s') \<longrightarrow>
             batch fn s = (None, s') \<and> notified s s' = coalesced s1 \<and> batch_ctx s' = emptyBatch)
       \<and> (all_quiet s \<longrightarrow> (\<exists>s'. commit s1 = (None, s')))
       \<and> distinct (map fst (coalesced s1))
       \<and> (\<forall>n key prev v. map_of (pendingOf n (batch_ctx s1)) key = Some (prev, v) \<longrightarrow>
             object_is prev (field (state_of s n) key) \<and> object_is v (field (state_of s1 n) key))
       \<and> (dirtySlices (batch_ctx s1) = [] \<longrightarrow> coalesced s1 = [])
       \<and> (\<forall>pre post n key v sa r sb.
             fn = pre @ CSet n key v # post \<and> exec_all pre (begin_batch s) = (None, sa)
             \<and> set_field n key v sa = (r, sb)
             \<and> \<not> object_is (field (state_of sa n) key) (field (state_of sb n) key) \<longrightarrow>
               map_of (pendingOf n (batch_ctx sb)) key =
                 Some (case map_of (pendingOf n (batch_ctx sa)) key of
                         Some (p0, _) \<Rightarrow> p0 | None \<Rightarrow> field (state_of sa n) key,
                       field (state_of sb n) key)
               \<and> key \<in> fst ` set (pendingOf n (batch_ctx s1))
               \<and> n \<in> set (dirtySlices (batch_ctx s1)))"
proof -
  note i0 = in_batch_begin[OF na]
  from exec_all_batch[OF aw i0 body] have inv: "in_batch s s1" by simp
  have 1: "events s1 = events s" using in_batch_events[OF inv] .
  have 2: "\<forall>s'. commit s1 = (None, s') \<longrightarrow>
             batch fn s = (None, s') \<and> notified s s' = coalesced s1 \<and> batch_ctx s' = emptyBatch"
  proof (intro allI impI)
    fix s' assume c: "commit s1 = (None, s')"
    from na body c have "batch fn s = (None, s')" by (simp add: begin_batch_def)
    with in_batch_commit[OF inv c]
    show "batch fn s = (None, s') \<and> notified s s' = coalesced s1 \<and> batch_ctx s' = emptyBatch"
      by simp
  qed
  have 3: "all_quiet s \<longrightarrow> (\<exists>s'. commit s1 = (None, s'))"
    using commit_quiet[OF in_batch_quiet[OF inv]] by blast
  have 4: "distinct (map fst (coalesced s1))" using distinct_coalesced[OF inv] .
  have 5: "\<forall>n key prev v. map_of (pendingOf n (batch_ctx s1)) key = Some (prev, v) \<longrightarrow>
             object_is prev (field (state_of s n) key) \<and> object_is v (field (state_of s1 n) key)"
    using in_batch_pending[OF inv] by blast
  have 6: "dirtySlices (batch_ctx s1) = [] \<longrightarrow> coalesced s1 = []"
  proof
    assume d: "dirtySlices (batch_ctx s1) = []"
    have "set (dirtySlices (batch_ctx s1)) = set (map fst (pendingFields (batch_ctx s1)))"
      using inv unfolding in_batch_def by blast
    with d have "pendingFields (batch_ctx s1) = []" by simp
    with d show "coalesced s1 = []" by (simp add: coalesced_def)
  qed
  have 7: "map_of (pendingOf n (batch_ctx sb)) key =
                 Some (case map_of (pendingOf n (batch_ctx sa)) key of
                         Some (p0, _) \<Rightarrow> p0 | None \<Rightarrow> field (state_of sa n) key,
                       field (state_of sb n) key)
               \<and> key \<in> fst ` set (pendingOf n (batch_ctx s1))
               \<and> n \<in> set (dirtySlices (batch_ctx s1))"
    if split: "fn = pre @ CSet n key v # post" and pre: "exec_all pre (begin_batch s) = (None, sa)"
      and w: "set_field n key v sa = (r, sb)"
      and ch: "\<not> object_is (field (state_of sa n) key) (field (state_of sb n) key)"
    for pre post n key v sa r sb
  proof -
    from aw split have awp: "list_all batch_aware pre" "list_all batch_aware post" by auto
    from exec_all_batch[OF awp(1) i0 pre] have ia: "in_batch s sa" by simp
    from set_field_batch[OF ia w] have ib: "in_batch s sb" "grows sa sb" by auto
    from body split pre w have post: "exec_all post sb = (None, s1)"
      by (cases r) (auto simp: exec_all_append unit_result_def split: option.splits prod.splits)
    from exec_all_batch[OF awp(2) ib(1) post] have g: "grows sb s1" by simp
    note m = set_field_merge[OF ia w ch]
    from changed_pending[OF ia ib ch] have "key \<in> fst ` set (pendingOf n (batch_ctx sb))" .
    from grows_pending[OF g this] have k: "key \<in> fst ` set (pendingOf n (batch_ctx s1))" .
    from m k pending_dirty[OF inv k] show ?thesis by simp
  qed
  from 1 2 3 4 5 6 7 show ?thesis by blast
qed

theorem batch_coalescing_witness:
  "\<not> active (batch_ctx (walletStore []))
   \<and> list_all (uses_registered (map fst (slices (walletStore []))))
         [CSet ''wallet'' ''bet'' (VNum 20), CSet ''spin'' ''remaining'' (VNum 4),
          CBatch [CSet ''wallet'' ''bet'' (VNum 30)], CSet ''wallet'' ''balance'' (VNum 980)]
   \<and> list_all batch_aware
         [CSet ''wallet'' ''bet'' (VNum 20), CSet ''spin'' ''remaining'' (VNum 4),
          CBatch [CSet ''wallet'' ''bet'' (VNum 30)], CSet ''wallet'' ''balance'' (VNum 980)]
   \<and> fst (exec_all
          [CSet ''wallet'' ''bet'' (VNum 20), CSet ''spin'' ''remaining'' (VNum 4),
           CBatch [CSet ''wallet'' ''bet'' (VNum 30)], CSet ''wallet'' ''balance'' (VNum 980)]
          (begin_batch (walletStore []))) = None
   \<and> events (snd (exec_all
          [CSet ''wallet'' ''bet'' (VNum 20), CSet ''spin'' ''remaining'' (VNum 4),
           CBatch [CSet ''wallet'' ''bet'' (VNum 30)], CSet ''wallet'' ''balance'' (VNum 980)]
          (begin_batch (walletStore [])))) = []
   \<and> fst (batch
          [CSet ''wallet'' ''bet'' (VNum 20), CSet ''spin'' ''remaining'' (VNum 4),
           CBatch [CSet ''wallet'' ''bet'' (VNum 30)], CSet ''wallet'' ''balance'' (VNum 980)]
          (walletStore [])) = None
   \<and> notified (walletStore [])
        (snd (batch
          [CSet ''wallet'' ''bet'' (VNum 20), CSet ''spin'' ''remaining'' (VNum 4),
           CBatch [CSet ''wallet'' ''bet'' (VNum 30)], CSet ''wallet'' ''balance'' (VNum 980)]
          (walletStore [])))
       = [(FieldEmitter ''wallet'' ''bet'', FieldChange (VNum 30) (VNum 1)),
          (FieldEmitter ''wallet'' ''balance'', FieldChange (VNum 980) (VNum 1000)),
          (FieldEmitter ''spin'' ''remaining'', FieldChange (VNum 4) (VNum 5)),
          (SliceEmitter ''wallet'',
           SliceState [(''balance'', VNum 980), (''bet'', VNum 30), (''currency'', VStr ''USD'')]),
          (SliceEmitter ''spin'',
           SliceState [(''remaining'', VNum 4), (''total'', VNum 10), (''multiplier'', VNum 1)]),
          (StoreEmitter,
           StoreState
             [(''wallet'', [(''balance'', VNum 980), (''bet'', VNum 30), (''currency'', VStr ''USD'')]),
              (''spin'', [(''remaining'', VNum 4), (''total'', VNum 10), (''multiplier'', VNum 1)])])]"
proof -
  let ?fn = "[CSet ''wallet'' ''bet'' (VNum 20), CSet ''spin'' ''remaining'' (VNum 4),
              CBatch [CSet ''wallet'' ''bet'' (VNum 30)], CSet ''wallet'' ''balance'' (VNum 980)]"
  let ?s1 = "snd (exec_all ?fn (begin_batch (walletStore [])))"
  let ?s' = "snd (commit ?s1)"
  have na: "\<not> active (batch_ctx (walletStore []))" by (simp add: example_defs)
  have aw: "list_all batch_aware ?fn" by simp
  have ur: "list_all (uses_registered (map fst (slices (walletStore [])))) ?fn"
    by (simp add: example_defs)
  have f1: "fst (exec_all ?fn (begin_batch (walletStore []))) = None"
    by (simp add: example_defs store_defs batch_defs)
  then have body: "exec_all ?fn (begin_batch (walletStore [])) = (None, ?s1)"
    by (simp add: prod_eq_iff)
  have "fst (commit ?s1) = None"
    by (simp add: example_defs store_defs batch_defs)
  then have c: "commit ?s1 = (None, ?s')" by (simp add: prod_eq_iff)
  have co: "coalesced ?s1
       = [(FieldEmitter ''wallet'' ''bet'', FieldChange (VNum 30) (VNum 1)),
          (FieldEmitter ''wallet'' ''balance'', FieldChange (VNum 980) (VNum 1000)),
          (FieldEmitter ''spin'' ''remaining'', FieldChange (VNum 4) (VNum 5)),
          (SliceEmitter ''wallet'',
           SliceState [(''balance'', VNum 980), (''bet'', VNum 30), (''currency'', VStr ''USD'')]),
          (SliceEmitter ''spin'',
           SliceState [(''remaining'', VNum 4), (''total'', VNum 10), (''multiplier'', VNum 1)]),
          (StoreEmitter,
           StoreState
             [(''wallet'', [(''balance'', VNum 980), (''bet'', VNum 30), (''currency'', VStr ''USD'')]),
              (''spin'', [(''remaining'', VNum 4), (''total'', VNum 10), (''multiplier'', VNum 1)])])]"
    by (simp add: coalesced_def fieldFires_def state_of_def example_defs store_defs batch_defs)
  from batch_coalescing[OF na aw ur body] c
  have "events ?s1 = events (walletStore [])
      \<and> batch ?fn (walletStore []) = (None, ?s')
      \<and> notified (walletStore []) ?s' = coalesced ?s1"
    by blast
  with na aw ur f1 co show ?thesis by (simp add: example_defs)
qed

text \<open>
  The claim C8 as written fails for a body that calls the hard \<open>reset\<close> before it writes:
  the reset puts the defaults in place without a pending diff, so the first write captures
  the default as \<open>prev\<close>. Here \<open>bet\<close> was \<open>50\<close> before the batch and the field is flushed
  once with \<open>(7, 1)\<close>.
\<close>

theorem batch_coalescing_counterexample:
  "\<not> active (batch_ctx playedStore)
   \<and> field (state_of playedStore ''wallet'') ''bet'' = VNum 50
   \<and> fst (batch [CReset, CSet ''wallet'' ''bet'' (VNum 5), CSet ''wallet'' ''bet'' (VNum 7)] playedStore)
       = None
   \<and> notified playedStore
        (snd (batch [CReset, CSet ''wallet'' ''bet'' (VNum 5), CSet ''wallet'' ''bet'' (VNum 7)]
                playedStore))
       = [(FieldEmitter ''wallet'' ''bet'', FieldChange (VNum 7) (VNum 1)),
          (SliceEmitter ''wallet'',
           SliceState [(''balance'', VNum 1000), (''bet'', VNum 7), (''currency'', VStr ''USD'')]),
          (StoreEmitter,
           StoreState
             [(''wallet'', [(''balance'', VNum 1000), (''bet'', VNum 7), (''currency'', VStr ''USD'')]),
              (''spin'', [(''remaining'', VNum 5), (''total'', VNum 10), (''multiplier'', VNum 1)])])]"
  by (simp add: notified_def playedStore_def example_defs store_defs batch_defs state_of_def)

section \<open>A write that is written back\<close>

lemma emitFields_events:
  "emitFields n r flds ev = (None, ev') \<Longrightarrow> \<exists>E. ev' = ev @ E \<and> fires E = signalFires r n flds"
proof (induction flds arbitrary: ev)
  case Nil
  then show ?case by (simp add: signalFires_def fieldFires_def)
next
  case (Cons a flds)
  obtain key prev v where a: "a = (key, prev, v)" by (cases a)
  obtain res ev1 where f: "emitField n r key v prev ev = (res, ev1)"
    by (cases "emitField n r key v prev ev")
  with Cons.prems a have res: "res = None" and rest: "emitFields n r flds ev1 = (None, ev')"
    by (auto split: option.splits)
  from emitField_None[OF f[unfolded res]] obtain E1 where
    e1: "ev1 = ev @ E1"
        "fires E1 = (if map_of (fieldListeners r) key = None then []
                     else [(FieldEmitter n key, FieldChange v prev)])" by simp
  from Cons.IH[OF rest] obtain E2 where e2: "ev' = ev1 @ E2" "fires E2 = signalFires r n flds" by blast
  from e1 e2 a have "ev' = ev @ (E1 @ E2) \<and> fires (E1 @ E2) = signalFires r n (a # flds)"
    by (simp add: signalFires_def fieldFires_def)
  then show ?case by blast
qed

lemma emitFields_quiet:
  "(\<forall>key. quiet (listenersOf r key)) \<Longrightarrow> \<exists>ev'. emitFields n r flds ev = (None, ev')"
proof (induction flds arbitrary: ev)
  case Nil
  then show ?case by simp
next
  case (Cons a flds)
  obtain key prev v where a: "a = (key, prev, v)" by (cases a)
  from Cons.prems have q: "quiet (listenersOf r key)" by simp
  have "\<exists>ev1. emitField n r key v prev ev = (None, ev1)"
    using emitSignal_quiet[OF q] by (auto simp: emitField_def listenersOf_def split: option.splits)
  then obtain ev1 where "emitField n r key v prev ev = (None, ev1)" by blast
  with Cons.IH[OF Cons.prems, of ev1] a show ?case by simp
qed

lemma emitPending_events:
  "emitPending pend s = (None, s') \<Longrightarrow>
     \<exists>E. s' = s\<lparr>events := events s @ E\<rparr>
        \<and> fires E = concat (map (\<lambda>(n, flds). case map_of (slices s) n of
                                  None \<Rightarrow> [] | Some r \<Rightarrow> signalFires r n flds) pend)"
proof (induction pend arbitrary: s)
  case Nil
  then show ?case by (auto intro!: exI[of _ "[]"])
next
  case (Cons a pend)
  obtain n flds where a: "a = (n, flds)" by (cases a)
  show ?case
  proof (cases "map_of (slices s) n")
    case None
    with Cons.prems a have "emitPending pend s = (None, s')" by simp
    from Cons.IH[OF this] None a show ?thesis by simp
  next
    case (Some r)
    obtain res ev1 where f: "emitFields n r flds (events s) = (res, ev1)"
      by (cases "emitFields n r flds (events s)")
    with Cons.prems a Some have res: "res = None"
      and rest: "emitPending pend (s\<lparr>events := ev1\<rparr>) = (None, s')"
      by (auto split: option.splits)
    from emitFields_events[OF f[unfolded res]] obtain E1 where
      e1: "ev1 = events s @ E1" "fires E1 = signalFires r n flds" by blast
    from Cons.IH[OF rest] obtain E2 where
      e2: "s' = s\<lparr>events := ev1 @ E2\<rparr>"
          "fires E2 = concat (map (\<lambda>(n, flds). case map_of (slices s) n of
                                  None \<Rightarrow> [] | Some r \<Rightarrow> signalFires r n flds) pend)"
      by auto
    from e1 e2 a Some have "s' = s\<lparr>events := events s @ (E1 @ E2)\<rparr>
        \<and> fires (E1 @ E2) = concat (map (\<lambda>(n, flds). case map_of (slices s) n of
                                  None \<Rightarrow> [] | Some r \<Rightarrow> signalFires r n flds) (a # pend))"
      by simp
    then show ?thesis by blast
  qed
qed

lemma emitDirty_events:
  "\<forall>n \<in> set ns. map_of (slices s) n \<noteq> None \<Longrightarrow> emitDirty ns s = (None, s') \<Longrightarrow>
     \<exists>E. s' = s\<lparr>events := events s @ E\<rparr>
        \<and> fires E = map (\<lambda>n. (SliceEmitter n, SliceState (state_of s n))) ns"
proof (induction ns arbitrary: s)
  case Nil
  then show ?case by (auto intro!: exI[of _ "[]"])
next
  case (Cons n ns)
  from Cons.prems(1) obtain h where h: "map_of (slices s) n = Some h" by auto
  obtain r ev1 where f: "emitSlice n h (events s) = (r, ev1)"
    by (cases "emitSlice n h (events s)")
  with Cons.prems(2) h have r: "r = None"
    and rest: "emitDirty ns (s\<lparr>events := ev1\<rparr>) = (None, s')"
    by (auto split: option.splits)
  from emitSlice_None[OF f[unfolded r]] h obtain E1 where
    e1: "ev1 = events s @ E1" "fires E1 = [(SliceEmitter n, SliceState (state_of s n))]"
    by (simp add: state_of_def)
  have reg: "\<forall>n \<in> set ns. map_of (slices (s\<lparr>events := ev1\<rparr>)) n \<noteq> None"
    using Cons.prems(1) by simp
  from Cons.IH[OF reg rest] obtain E2 where
    e2: "s' = s\<lparr>events := ev1 @ E2\<rparr>"
        "fires E2 = map (\<lambda>n. (SliceEmitter n, SliceState (state_of s n))) ns"
    by auto
  from e1 e2 have "s' = s\<lparr>events := events s @ (E1 @ E2)\<rparr>
      \<and> fires (E1 @ E2) = map (\<lambda>n. (SliceEmitter n, SliceState (state_of s n))) (n # ns)"
    by simp
  then show ?case by blast
qed

lemma emitOnChange_events:
  "emitOnChange s = (None, s') \<Longrightarrow>
     \<exists>E. s' = s\<lparr>events := events s @ E\<rparr> \<and> fires E = [(StoreEmitter, StoreState (getFullState s))]"
proof -
  assume "emitOnChange s = (None, s')"
  from emitOnChange_None[OF this]
  have "s' = s\<lparr>events := events s @ (Fire StoreEmitter (StoreState (getFullState s))
                      # invokes (storeListeners s) (StoreState (getFullState s)))\<rparr>
     \<and> fires (Fire StoreEmitter (StoreState (getFullState s))
                      # invokes (storeListeners s) (StoreState (getFullState s)))
         = [(StoreEmitter, StoreState (getFullState s))]"
    by simp
  then show ?thesis by blast
qed

lemma getFullState_simps [simp]:
  "getFullState (s\<lparr>events := ev\<rparr>) = getFullState s"
  "getFullState (s\<lparr>batch_ctx := b\<rparr>) = getFullState s"
  by (simp_all add: getFullState_def)

lemma commit_sig_events:
  assumes reg: "set (dirtySlices (batch_ctx s)) \<subseteq> fst ` set (slices s)"
    and c: "commit_sig s = (None, s')"
  shows "\<exists>E. s' = s\<lparr>events := events s @ E, batch_ctx := emptyBatch\<rparr> \<and> fires E = coalesced_sig s"
proof -
  let ?s1 = "s\<lparr>batch_ctx := (batch_ctx s)\<lparr>active := False\<rparr>\<rparr>"
  have regd: "\<forall>n \<in> set (dirtySlices (batch_ctx s)). map_of (slices s) n \<noteq> None"
    using reg by (auto simp: map_of_eq_None_iff)
  obtain r2 s2 where f2: "emitPending (pendingFields (batch_ctx s)) ?s1 = (r2, s2)"
    by (cases "emitPending (pendingFields (batch_ctx s)) ?s1")
  with c have r2: "r2 = None" by (auto simp: commit_sig_def Let_def split: option.splits)
  from emitPending_events[OF f2[unfolded r2]] obtain E1 where
    e1: "s2 = ?s1\<lparr>events := events s @ E1\<rparr>"
        "fires E1 = concat (map (\<lambda>(n, flds). case map_of (slices s) n of
                                  None \<Rightarrow> [] | Some r \<Rightarrow> signalFires r n flds)
                            (pendingFields (batch_ctx s)))"
    by auto
  show ?thesis
  proof (cases "dirtySlices (batch_ctx s) = []")
    case True
    with c f2 r2 e1
    have "s' = s\<lparr>events := events s @ E1, batch_ctx := emptyBatch\<rparr>"
      by (auto simp: commit_sig_def Let_def)
    moreover have "fires E1 = coalesced_sig s" using e1 True by (simp add: coalesced_sig_def)
    ultimately show ?thesis by blast
  next
    case False
    obtain r3 s3 where f3: "emitDirty (dirtySlices (batch_ctx s)) s2 = (r3, s3)"
      by (cases "emitDirty (dirtySlices (batch_ctx s)) s2")
    with c f2 r2 e1 have r3: "r3 = None" by (auto simp: commit_sig_def Let_def split: option.splits)
    from regd e1 have "\<forall>n \<in> set (dirtySlices (batch_ctx s)). map_of (slices s2) n \<noteq> None" by simp
    from emitDirty_events[OF this f3[unfolded r3]] e1 obtain E2 where
      e2: "s3 = ?s1\<lparr>events := events s @ E1 @ E2\<rparr>"
          "fires E2 = map (\<lambda>n. (SliceEmitter n, SliceState (state_of s n))) (dirtySlices (batch_ctx s))"
      by auto
    obtain r4 s4 where f4: "emitOnChange s3 = (r4, s4)" by (cases "emitOnChange s3")
    with c f2 r2 e1 f3 r3 e2 False have r4: "r4 = None" and s': "s' = s4\<lparr>batch_ctx := emptyBatch\<rparr>"
      by (auto simp: commit_sig_def Let_def split: option.splits)
    from emitOnChange_events[OF f4[unfolded r4]] e2 obtain E3 where
      e3: "s4 = ?s1\<lparr>events := events s @ E1 @ E2 @ E3\<rparr>"
          "fires E3 = [(StoreEmitter, StoreState (getFullState s))]"
      by auto
    from s' e3 have "s' = s\<lparr>events := events s @ (E1 @ E2 @ E3), batch_ctx := emptyBatch\<rparr>"
      by simp
    moreover have "fires (E1 @ E2 @ E3) = coalesced_sig s"
      using e1 e2 e3 False by (simp add: coalesced_sig_def)
    ultimately show ?thesis by blast
  qed
qed

lemma in_batch_commit_sig:
  assumes inv: "in_batch s0 s1" and c: "commit_sig s1 = (None, s')"
  shows "notified s0 s' = coalesced_sig s1 \<and> batch_ctx s' = emptyBatch \<and> slices s' = slices s1"
proof -
  have reg: "set (dirtySlices (batch_ctx s1)) \<subseteq> fst ` set (slices s1)"
  proof -
    have "set (dirtySlices (batch_ctx s1)) \<subseteq> set (map fst (slices s0))"
      and "map fst (slices s1) = map fst (slices s0)"
      using inv unfolding in_batch_def by blast+
    then show ?thesis by (metis list.set_map)
  qed
  from commit_sig_events[OF reg c] obtain E where
    e: "s' = s1\<lparr>events := events s1 @ E, batch_ctx := emptyBatch\<rparr>" "fires E = coalesced_sig s1"
    by blast
  from e in_batch_events[OF inv] show ?thesis by (simp add: notified_def)
qed

text \<open>The flush of the Signal-based store returns when no listener raises.\<close>

lemma emitPending_frame:
  "emitPending pend s = (r, s') \<Longrightarrow>
     slices s' = slices s \<and> storeListeners s' = storeListeners s \<and> batch_ctx s' = batch_ctx s"
proof (induction pend arbitrary: s)
  case Nil
  then show ?case by simp
next
  case (Cons a pend)
  obtain n flds where a: "a = (n, flds)" by (cases a)
  show ?case
  proof (cases "map_of (slices s) n")
    case None
    with Cons a show ?thesis by simp
  next
    case (Some h)
    obtain r1 ev where f: "emitFields n h flds (events s) = (r1, ev)"
      by (cases "emitFields n h flds (events s)")
    show ?thesis
    proof (cases r1)
      case None
      with Cons.prems a Some f have "emitPending pend (s\<lparr>events := ev\<rparr>) = (r, s')" by simp
      from Cons.IH[OF this] show ?thesis by simp
    next
      case (Some e)
      with Cons.prems a \<open>map_of (slices s) n = Some h\<close> f show ?thesis by auto
    qed
  qed
qed

lemma emitDirty_frame:
  "emitDirty ns s = (r, s') \<Longrightarrow>
     slices s' = slices s \<and> storeListeners s' = storeListeners s \<and> batch_ctx s' = batch_ctx s"
proof (induction ns arbitrary: s)
  case Nil
  then show ?case by simp
next
  case (Cons n ns)
  show ?case
  proof (cases "map_of (slices s) n")
    case None
    with Cons show ?thesis by simp
  next
    case (Some h)
    obtain r1 ev where f: "emitSlice n h (events s) = (r1, ev)"
      by (cases "emitSlice n h (events s)")
    show ?thesis
    proof (cases r1)
      case None
      with Cons.prems Some f have "emitDirty ns (s\<lparr>events := ev\<rparr>) = (r, s')" by simp
      from Cons.IH[OF this] show ?thesis by simp
    next
      case (Some e)
      with Cons.prems \<open>map_of (slices s) n = Some h\<close> f show ?thesis by auto
    qed
  qed
qed

lemma emitPending_quiet:
  "\<forall>n h. map_of (slices s) n = Some h \<longrightarrow> (\<forall>key. quiet (listenersOf h key)) \<Longrightarrow>
     \<exists>s'. emitPending pend s = (None, s')"
proof (induction pend arbitrary: s)
  case Nil
  then show ?case by simp
next
  case (Cons a pend)
  obtain n flds where a: "a = (n, flds)" by (cases a)
  show ?case
  proof (cases "map_of (slices s) n")
    case None
    with Cons a show ?thesis by simp
  next
    case (Some h)
    with Cons.prems have "\<forall>key. quiet (listenersOf h key)" by blast
    from emitFields_quiet[OF this, of n flds "events s"] obtain ev where
      f: "emitFields n h flds (events s) = (None, ev)" by blast
    have "\<forall>m g. map_of (slices (s\<lparr>events := ev\<rparr>)) m = Some g \<longrightarrow> (\<forall>key. quiet (listenersOf g key))"
      using Cons.prems by simp
    from Cons.IH[OF this] a Some f show ?thesis by simp
  qed
qed

lemma emitDirty_quiet:
  "\<forall>n h. map_of (slices s) n = Some h \<longrightarrow> quiet (sliceListeners h) \<Longrightarrow>
     \<exists>s'. emitDirty ns s = (None, s')"
proof (induction ns arbitrary: s)
  case Nil
  then show ?case by simp
next
  case (Cons n ns)
  show ?case
  proof (cases "map_of (slices s) n")
    case None
    with Cons show ?thesis by simp
  next
    case (Some h)
    with Cons.prems have q: "quiet (sliceListeners h)" by blast
    have f: "emitSlice n h (events s) = (None, events s @ Fire (SliceEmitter n) (SliceState (state h))
                # invokes (sliceListeners h) (SliceState (state h)))"
      using emitSignal_quiet[OF q] by (simp add: emitSlice_def)
    have "\<forall>m g. map_of (slices (s\<lparr>events := events s @ Fire (SliceEmitter n) (SliceState (state h))
                # invokes (sliceListeners h) (SliceState (state h))\<rparr>)) m = Some g \<longrightarrow> quiet (sliceListeners g)"
      using Cons.prems by simp
    from Cons.IH[OF this] Some f show ?thesis by simp
  qed
qed

lemma emitOnChange_quiet:
  "quiet (storeListeners s) \<Longrightarrow> \<exists>s'. emitOnChange s = (None, s')"
  using emitSignal_quiet[of "storeListeners s"]
  by (auto simp: emitOnChange_def split: prod.splits)

lemma commit_sig_quiet:
  assumes q: "quiet (storeListeners s)"
    and ql: "\<forall>n h. map_of (slices s) n = Some h \<longrightarrow>
               quiet (sliceListeners h) \<and> (\<forall>key. quiet (listenersOf h key))"
  shows "\<exists>s'. commit_sig s = (None, s')"
proof -
  let ?s1 = "s\<lparr>batch_ctx := (batch_ctx s)\<lparr>active := False\<rparr>\<rparr>"
  have "\<forall>n h. map_of (slices ?s1) n = Some h \<longrightarrow> (\<forall>key. quiet (listenersOf h key))"
    using ql by simp
  from emitPending_quiet[OF this] obtain s2 where
    f2: "emitPending (pendingFields (batch_ctx s)) ?s1 = (None, s2)" by blast
  note fr2 = emitPending_frame[OF f2]
  have "\<forall>n h. map_of (slices s2) n = Some h \<longrightarrow> quiet (sliceListeners h)"
    using ql fr2 by simp
  from emitDirty_quiet[OF this] obtain s3 where
    f3: "emitDirty (dirtySlices (batch_ctx s)) s2 = (None, s3)" by blast
  note fr3 = emitDirty_frame[OF f3]
  have "quiet (storeListeners s3)" using q fr2 fr3 by simp
  from emitOnChange_quiet[OF this] obtain s4 where
    f4: "emitOnChange s3 = (None, s4)" by blast
  from f2 f3 f4 fr2 fr3 show ?thesis
    by (auto simp: commit_sig_def Let_def)
qed

text \<open>A pending diff, a dirty slice and the store are in the list of the flush.\<close>

lemma pending_entry:
  assumes p: "map_of (pendingOf n (batch_ctx s)) key = Some (prev, v)"
  shows "\<exists>flds. (n, flds) \<in> set (pendingFields (batch_ctx s)) \<and> (key, prev, v) \<in> set flds"
proof -
  from p have m: "(key, prev, v) \<in> set (pendingOf n (batch_ctx s))" by (rule map_of_SomeD)
  then obtain flds where f: "map_of (pendingFields (batch_ctx s)) n = Some flds"
    by (cases "map_of (pendingFields (batch_ctx s)) n") (auto simp: pendingOf_def)
  then have "pendingOf n (batch_ctx s) = flds" by (simp add: pendingOf_def)
  with m map_of_SomeD[OF f] show ?thesis by blast
qed

lemma pending_coalesced:
  assumes p: "map_of (pendingOf n (batch_ctx s)) key = Some (prev, v)"
  shows "(FieldEmitter n key, FieldChange v prev) \<in> set (coalesced s)"
proof -
  from pending_entry[OF p] obtain flds where
    f: "(n, flds) \<in> set (pendingFields (batch_ctx s))" "(key, prev, v) \<in> set flds" by blast
  from f(2) have "(FieldEmitter n key, FieldChange v prev) \<in> set (fieldFires n flds)"
    by (force simp: fieldFires_def)
  with f(1) show ?thesis by (force simp: coalesced_def)
qed

lemma pending_coalesced_sig:
  assumes p: "map_of (pendingOf n (batch_ctx s)) key = Some (prev, v)"
    and r: "map_of (slices s) n = Some r" and sig: "map_of (fieldListeners r) key \<noteq> None"
  shows "(FieldEmitter n key, FieldChange v prev) \<in> set (coalesced_sig s)"
proof -
  from pending_entry[OF p] obtain flds where
    f: "(n, flds) \<in> set (pendingFields (batch_ctx s))" "(key, prev, v) \<in> set flds" by blast
  from f(2) sig have "(FieldEmitter n key, FieldChange v prev) \<in> set (signalFires r n flds)"
    by (force simp: signalFires_def fieldFires_def)
  with f(1) r show ?thesis by (force simp: coalesced_sig_def)
qed

lemma dirty_coalesced:
  assumes "n \<in> set (dirtySlices (batch_ctx s))"
  shows "(SliceEmitter n, SliceState (state_of s n)) \<in> set (coalesced s)"
    "(StoreEmitter, StoreState (fst (getState s))) \<in> set (coalesced s)"
    "(SliceEmitter n, SliceState (state_of s n)) \<in> set (coalesced_sig s)"
    "(StoreEmitter, StoreState (getFullState s)) \<in> set (coalesced_sig s)"
  using assms by (auto simp: coalesced_def coalesced_sig_def)

lemma pending_lookup:
  "key \<in> fst ` set flds \<Longrightarrow> \<exists>prev v. map_of flds key = Some (prev, v)"
  by (cases "map_of flds key") (auto simp: map_of_eq_None_iff)

lemma written_back:
  assumes i1: "in_batch s s1" and k: "key \<in> fst ` set (pendingOf n (batch_ctx s1))"
    and wb: "object_is (field (state_of s1 n) key) (field (state_of s n) key)"
  shows "\<exists>prev v. map_of (pendingOf n (batch_ctx s1)) key = Some (prev, v) \<and> object_is v prev"
proof -
  from pending_lookup[OF k] obtain prev v where
    p: "map_of (pendingOf n (batch_ctx s1)) key = Some (prev, v)" by blast
  from in_batch_pending[OF i1 p] have
    a: "object_is prev (field (state_of s n) key)" and b: "object_is v (field (state_of s1 n) key)"
    by auto
  from b wb have "object_is v (field (state_of s n) key)" by (rule object_is_trans)
  with a have "object_is v prev" using object_is_sym object_is_trans by blast
  with p show ?thesis by blast
qed

text \<open>
  Claim C10, a write-then-write-back inside a batch still notifies, as amended, for both
  stores. No batch is active; the body is batch-aware (and, in the class-based store,
  calls only handles of registered slices) and returns normally in the store \<open>s1\<close>; one of
  its calls changes the field \<open>key\<close> of the slice \<open>n\<close> (from \<open>sa\<close> to \<open>sb\<close>); and at the end the
  field is value-identical to what it was before the batch. Then the slice is dirty, the
  field has a pending diff whose value and previous are value-identical, and whenever the
  flush returns (it does when no listener raises) \<open>batch\<close> returns and the emitter of the
  field fired with that diff (in the Signal-based store when the field has a \<open>Signal\<close>),
  the emitter of the slice fired with its state and the store emitter fired.
\<close>

theorem write_back_notifies:
  assumes na: "\<not> active (batch_ctx s)"
    and ch: "\<not> object_is (field (state_of sa n) key) (field (state_of sb n) key)"
    and wb: "object_is (field (state_of s1 n) key) (field (state_of s n) key)"
  shows "(list_all batch_aware (pre @ c # post)
          \<and> list_all (uses_registered (map fst (slices s))) (pre @ c # post)
          \<and> exec_all pre (begin_batch s) = (None, sa) \<and> exec c sa = (None, sb)
          \<and> exec_all post sb = (None, s1) \<longrightarrow>
            n \<in> set (dirtySlices (batch_ctx s1))
          \<and> (\<exists>prev v. map_of (pendingOf n (batch_ctx s1)) key = Some (prev, v) \<and> object_is v prev
               \<and> (\<forall>s'. commit s1 = (None, s') \<longrightarrow>
                     batch (pre @ c # post) s = (None, s')
                   \<and> (FieldEmitter n key, FieldChange v prev) \<in> set (notified s s')
                   \<and> (SliceEmitter n, SliceState (state_of s1 n)) \<in> set (notified s s')
                   \<and> (StoreEmitter, StoreState (fst (getState s1))) \<in> set (notified s s')))
          \<and> (all_quiet s \<longrightarrow> (\<exists>s'. commit s1 = (None, s'))))
       \<and> (list_all batch_aware_sig (gpre @ g # gpost)
          \<and> exec_all_sig gpre (begin_batch s) = (None, sa) \<and> exec_sig g sa = (None, sb)
          \<and> exec_all_sig gpost sb = (None, s1) \<longrightarrow>
            n \<in> set (dirtySlices (batch_ctx s1))
          \<and> (\<exists>prev v. map_of (pendingOf n (batch_ctx s1)) key = Some (prev, v) \<and> object_is v prev
               \<and> (\<forall>s'. commit_sig s1 = (None, s') \<longrightarrow>
                     batch_sig (gpre @ g # gpost) s = (None, s')
                   \<and> (\<forall>r. map_of (slices s) n = Some r \<and> map_of (fieldListeners r) key \<noteq> None \<longrightarrow>
                         (FieldEmitter n key, FieldChange v prev) \<in> set (notified s s'))
                   \<and> (SliceEmitter n, SliceState (state_of s1 n)) \<in> set (notified s s')
                   \<and> (StoreEmitter, StoreState (getFullState s1)) \<in> set (notified s s')))
          \<and> (all_quiet s \<longrightarrow> (\<exists>s'. commit_sig s1 = (None, s'))))"
proof (intro conjI impI)
  note i0 = in_batch_begin[OF na]
  {
    assume a: "list_all batch_aware (pre @ c # post)
          \<and> list_all (uses_registered (map fst (slices s))) (pre @ c # post)
          \<and> exec_all pre (begin_batch s) = (None, sa) \<and> exec c sa = (None, sb)
          \<and> exec_all post sb = (None, s1)"
    then have aw: "list_all batch_aware pre" "batch_aware c" "list_all batch_aware post" by auto
    from a exec_all_batch[OF aw(1) i0] have ia: "in_batch s sa" by blast
    from a exec_batch[OF aw(2) ia] have ib: "in_batch s sb" "grows sa sb" by blast+
    from a exec_all_batch[OF aw(3) ib(1)] have i1: "in_batch s s1" "grows sb s1" by blast+
    from grows_pending[OF i1(2) changed_pending[OF ia ib ch]]
    have k: "key \<in> fst ` set (pendingOf n (batch_ctx s1))" .
    from pending_dirty[OF i1(1) k] show d: "n \<in> set (dirtySlices (batch_ctx s1))" .
    from written_back[OF i1(1) k wb] obtain prev v where
      p: "map_of (pendingOf n (batch_ctx s1)) key = Some (prev, v)" "object_is v prev" by blast
    from a have body: "exec_all (pre @ c # post) (begin_batch s) = (None, s1)"
      by (simp add: exec_all_append)
    have "batch (pre @ c # post) s = (None, s')
                   \<and> (FieldEmitter n key, FieldChange v prev) \<in> set (notified s s')
                   \<and> (SliceEmitter n, SliceState (state_of s1 n)) \<in> set (notified s s')
                   \<and> (StoreEmitter, StoreState (fst (getState s1))) \<in> set (notified s s')"
      if c: "commit s1 = (None, s')" for s'
    proof -
      from na body c have "batch (pre @ c # post) s = (None, s')" by (simp add: begin_batch_def)
      moreover from in_batch_commit[OF i1(1) c] have "notified s s' = coalesced s1" by simp
      ultimately show ?thesis using pending_coalesced[OF p(1)] dirty_coalesced(1,2)[OF d] by simp
    qed
    with p show "\<exists>prev v. map_of (pendingOf n (batch_ctx s1)) key = Some (prev, v) \<and> object_is v prev
               \<and> (\<forall>s'. commit s1 = (None, s') \<longrightarrow>
                     batch (pre @ c # post) s = (None, s')
                   \<and> (FieldEmitter n key, FieldChange v prev) \<in> set (notified s s')
                   \<and> (SliceEmitter n, SliceState (state_of s1 n)) \<in> set (notified s s')
                   \<and> (StoreEmitter, StoreState (fst (getState s1))) \<in> set (notified s s'))"
      by blast
    show "\<exists>s'. commit s1 = (None, s')" if "all_quiet s"
      using commit_quiet[OF in_batch_quiet[OF i1(1) that]] .
  }
  {
    assume a: "list_all batch_aware_sig (gpre @ g # gpost)
          \<and> exec_all_sig gpre (begin_batch s) = (None, sa) \<and> exec_sig g sa = (None, sb)
          \<and> exec_all_sig gpost sb = (None, s1)"
    then have aw: "list_all batch_aware_sig gpre" "batch_aware_sig g" "list_all batch_aware_sig gpost"
      by auto
    from a exec_all_sig_batch[OF aw(1) i0] have ia: "in_batch s sa" by blast
    from a exec_sig_batch[OF aw(2) ia] have ib: "in_batch s sb" "grows sa sb" by blast+
    from a exec_all_sig_batch[OF aw(3) ib(1)] have i1: "in_batch s s1" "grows sb s1" by blast+
    from grows_pending[OF i1(2) changed_pending[OF ia ib ch]]
    have k: "key \<in> fst ` set (pendingOf n (batch_ctx s1))" .
    from pending_dirty[OF i1(1) k] show d: "n \<in> set (dirtySlices (batch_ctx s1))" .
    from written_back[OF i1(1) k wb] obtain prev v where
      p: "map_of (pendingOf n (batch_ctx s1)) key = Some (prev, v)" "object_is v prev" by blast
    from a have body: "exec_all_sig (gpre @ g # gpost) (begin_batch s) = (None, s1)"
      by (simp add: exec_all_sig_append)
    have "batch_sig (gpre @ g # gpost) s = (None, s')
                   \<and> (\<forall>r. map_of (slices s) n = Some r \<and> map_of (fieldListeners r) key \<noteq> None \<longrightarrow>
                         (FieldEmitter n key, FieldChange v prev) \<in> set (notified s s'))
                   \<and> (SliceEmitter n, SliceState (state_of s1 n)) \<in> set (notified s s')
                   \<and> (StoreEmitter, StoreState (getFullState s1)) \<in> set (notified s s')"
      if c: "commit_sig s1 = (None, s')" for s'
    proof -
      from na body c have b: "batch_sig (gpre @ g # gpost) s = (None, s')"
        by (simp add: begin_batch_def)
      from in_batch_commit_sig[OF i1(1) c] have n: "notified s s' = coalesced_sig s1" by simp
      have fe: "(FieldEmitter n key, FieldChange v prev) \<in> set (coalesced_sig s1)"
        if r: "map_of (slices s) n = Some r \<and> map_of (fieldListeners r) key \<noteq> None" for r
      proof -
        from r in_batch_slice[OF i1(1), of n r] obtain r1 where
          r1: "map_of (slices s1) n = Some r1" "same_handle r r1" by blast
        with r have "map_of (fieldListeners r1) key \<noteq> None" by (simp add: same_handle_def)
        from pending_coalesced_sig[OF p(1) r1(1) this] show ?thesis .
      qed
      show ?thesis unfolding n using b dirty_coalesced(3,4)[OF d] fe by blast
    qed
    with p show "\<exists>prev v. map_of (pendingOf n (batch_ctx s1)) key = Some (prev, v) \<and> object_is v prev
               \<and> (\<forall>s'. commit_sig s1 = (None, s') \<longrightarrow>
                     batch_sig (gpre @ g # gpost) s = (None, s')
                   \<and> (\<forall>r. map_of (slices s) n = Some r \<and> map_of (fieldListeners r) key \<noteq> None \<longrightarrow>
                         (FieldEmitter n key, FieldChange v prev) \<in> set (notified s s'))
                   \<and> (SliceEmitter n, SliceState (state_of s1 n)) \<in> set (notified s s')
                   \<and> (StoreEmitter, StoreState (getFullState s1)) \<in> set (notified s s'))"
      by blast
    show "\<exists>s'. commit_sig s1 = (None, s')" if "all_quiet s"
      using commit_sig_quiet[OF in_batch_quiet[OF i1(1) that]] .
  }
qed

theorem write_back_notifies_witness:
  "\<not> active (batch_ctx (walletStore []))
   \<and> list_all batch_aware
         [CSet ''wallet'' ''bet'' (VNum 99), CSet ''wallet'' ''balance'' (VNum 5),
          CSet ''wallet'' ''bet'' (VNum 1)]
   \<and> list_all (uses_registered (map fst (slices (walletStore []))))
         [CSet ''wallet'' ''bet'' (VNum 99), CSet ''wallet'' ''balance'' (VNum 5),
          CSet ''wallet'' ''bet'' (VNum 1)]
   \<and> field (state_of (walletStore []) ''wallet'') ''bet'' = VNum 1
   \<and> field (state_of (snd (exec (CSet ''wallet'' ''bet'' (VNum 99)) (begin_batch (walletStore []))))
              ''wallet'') ''bet'' = VNum 99
   \<and> ''wallet'' \<in> set (dirtySlices (batch_ctx (snd (exec_all
         [CSet ''wallet'' ''balance'' (VNum 5), CSet ''wallet'' ''bet'' (VNum 1)]
         (snd (exec (CSet ''wallet'' ''bet'' (VNum 99)) (begin_batch (walletStore []))))))))
   \<and> fst (batch [CSet ''wallet'' ''bet'' (VNum 99), CSet ''wallet'' ''balance'' (VNum 5),
                  CSet ''wallet'' ''bet'' (VNum 1)] (walletStore [])) = None
   \<and> notified (walletStore [])
        (snd (batch [CSet ''wallet'' ''bet'' (VNum 99), CSet ''wallet'' ''balance'' (VNum 5),
                     CSet ''wallet'' ''bet'' (VNum 1)] (walletStore [])))
       = [(FieldEmitter ''wallet'' ''bet'', FieldChange (VNum 1) (VNum 1)),
          (FieldEmitter ''wallet'' ''balance'', FieldChange (VNum 5) (VNum 1000)),
          (SliceEmitter ''wallet'',
           SliceState [(''balance'', VNum 5), (''bet'', VNum 1), (''currency'', VStr ''USD'')]),
          (StoreEmitter,
           StoreState
             [(''wallet'', [(''balance'', VNum 5), (''bet'', VNum 1), (''currency'', VStr ''USD'')]),
              (''spin'', [(''remaining'', VNum 5), (''total'', VNum 10), (''multiplier'', VNum 1)])])]
   \<and> notified (walletStore [])
        (snd (batch_sig [SSet ''wallet'' ''bet'' (VNum 99), SSet ''wallet'' ''balance'' (VNum 5),
                         SSet ''wallet'' ''bet'' (VNum 1)] (walletStore [])))
       = [(FieldEmitter ''wallet'' ''bet'', FieldChange (VNum 1) (VNum 1)),
          (SliceEmitter ''wallet'',
           SliceState [(''balance'', VNum 5), (''bet'', VNum 1), (''currency'', VStr ''USD'')]),
          (StoreEmitter,
           StoreState
             [(''wallet'', [(''balance'', VNum 5), (''bet'', VNum 1), (''currency'', VStr ''USD'')]),
              (''spin'', [(''remaining'', VNum 5), (''total'', VNum 10), (''multiplier'', VNum 1)])])]"
proof -
  let ?s = "walletStore []"
  let ?c = "CSet ''wallet'' ''bet'' (VNum 99)"
  let ?post = "[CSet ''wallet'' ''balance'' (VNum 5), CSet ''wallet'' ''bet'' (VNum 1)]"
  define sb where "sb = snd (exec ?c (begin_batch ?s))"
  define s1 where "s1 = snd (exec_all ?post sb)"
  have na: "\<not> active (batch_ctx ?s)" by (simp add: example_defs)
  have aw: "list_all batch_aware ([] @ ?c # ?post)" by simp
  have ur: "list_all (uses_registered (map fst (slices ?s))) ([] @ ?c # ?post)"
    by (simp add: example_defs)
  have f0: "field (state_of ?s ''wallet'') ''bet'' = VNum 1"
    by (simp add: state_of_def example_defs store_defs)
  have fa: "field (state_of (begin_batch ?s) ''wallet'') ''bet'' = VNum 1"
    by (simp add: state_of_def example_defs store_defs batch_defs)
  have fb: "field (state_of sb ''wallet'') ''bet'' = VNum 99"
    unfolding sb_def by (simp add: state_of_def example_defs store_defs batch_defs)
  have f1: "field (state_of s1 ''wallet'') ''bet'' = VNum 1"
    unfolding s1_def sb_def by (simp add: state_of_def example_defs store_defs batch_defs)
  have ch: "\<not> object_is (field (state_of (begin_batch ?s) ''wallet'') ''bet'')
                         (field (state_of sb ''wallet'') ''bet'')"
    unfolding fa fb by (simp add: object_is_def)
  have wb: "object_is (field (state_of s1 ''wallet'') ''bet'') (field (state_of ?s ''wallet'') ''bet'')"
    unfolding f0 f1 by (simp add: object_is_def)
  have e0: "exec_all [] (begin_batch ?s) = (None, begin_batch ?s)" by simp
  have ec: "exec ?c (begin_batch ?s) = (None, sb)"
    unfolding sb_def by (simp add: prod_eq_iff example_defs store_defs batch_defs)
  have ep: "exec_all ?post sb = (None, s1)"
    unfolding s1_def sb_def by (simp add: prod_eq_iff example_defs store_defs batch_defs)
  have c: "commit s1 = (None, snd (commit s1))"
    unfolding s1_def sb_def by (simp add: prod_eq_iff example_defs store_defs batch_defs)
  from write_back_notifies[OF na ch wb, of "[]" ?c ?post] aw ur e0 ec ep c
  have "''wallet'' \<in> set (dirtySlices (batch_ctx s1))
      \<and> batch ([] @ ?c # ?post) ?s = (None, snd (commit s1))"
    by blast
  then have r: "''wallet'' \<in> set (dirtySlices (batch_ctx s1))" "fst (batch (?c # ?post) ?s) = None"
    by simp_all
  have n1: "notified ?s (snd (batch (?c # ?post) ?s))
       = [(FieldEmitter ''wallet'' ''bet'', FieldChange (VNum 1) (VNum 1)),
          (FieldEmitter ''wallet'' ''balance'', FieldChange (VNum 5) (VNum 1000)),
          (SliceEmitter ''wallet'',
           SliceState [(''balance'', VNum 5), (''bet'', VNum 1), (''currency'', VStr ''USD'')]),
          (StoreEmitter,
           StoreState
             [(''wallet'', [(''balance'', VNum 5), (''bet'', VNum 1), (''currency'', VStr ''USD'')]),
              (''spin'', [(''remaining'', VNum 5), (''total'', VNum 10), (''multiplier'', VNum 1)])])]"
    by (simp add: notified_def example_defs store_defs batch_defs)
  have n2: "notified ?s
        (snd (batch_sig [SSet ''wallet'' ''bet'' (VNum 99), SSet ''wallet'' ''balance'' (VNum 5),
                         SSet ''wallet'' ''bet'' (VNum 1)] ?s))
       = [(FieldEmitter ''wallet'' ''bet'', FieldChange (VNum 1) (VNum 1)),
          (SliceEmitter ''wallet'',
           SliceState [(''balance'', VNum 5), (''bet'', VNum 1), (''currency'', VStr ''USD'')]),
          (StoreEmitter,
           StoreState
             [(''wallet'', [(''balance'', VNum 5), (''bet'', VNum 1), (''currency'', VStr ''USD'')]),
              (''spin'', [(''remaining'', VNum 5), (''total'', VNum 10), (''multiplier'', VNum 1)])])]"
    by (simp add: notified_def example_defs store_defs batch_sig_defs)
  from na aw ur f0 fb r n1 n2 show ?thesis unfolding s1_def sb_def by simp
qed

text \<open>
  The claim C10 as written fails for a body that calls the hard \<open>reset\<close> before it writes.
  Here \<open>bet\<close> is \<open>50\<close> before the batch, is set to \<open>99\<close> and then back to \<open>50\<close>. In the
  class-based store the field is flushed with \<open>(50, 1)\<close>: the previous value is the default
  that the reset put in place. In the Signal-based store the reset has cleared the
  \<open>Signal\<close> of the field, so no field emitter fires at all.
\<close>

theorem write_back_counterexample:
  "\<not> active (batch_ctx playedStore)
   \<and> map (\<lambda>(n, h). (n, map fst (fieldListeners h))) (slices playedStore)
       = [(''wallet'', [''bet'']), (''spin'', [])]
   \<and> field (state_of playedStore ''wallet'') ''bet'' = VNum 50
   \<and> fst (batch [CReset, CSet ''wallet'' ''bet'' (VNum 99), CSet ''wallet'' ''bet'' (VNum 50)]
             playedStore) = None
   \<and> field (state_of (snd (batch [CReset, CSet ''wallet'' ''bet'' (VNum 99),
                                    CSet ''wallet'' ''bet'' (VNum 50)] playedStore))
              ''wallet'') ''bet'' = VNum 50
   \<and> notified playedStore
        (snd (batch [CReset, CSet ''wallet'' ''bet'' (VNum 99), CSet ''wallet'' ''bet'' (VNum 50)]
                playedStore))
       = [(FieldEmitter ''wallet'' ''bet'', FieldChange (VNum 50) (VNum 1)),
          (SliceEmitter ''wallet'',
           SliceState [(''balance'', VNum 1000), (''bet'', VNum 50), (''currency'', VStr ''USD'')]),
          (StoreEmitter,
           StoreState
             [(''wallet'', [(''balance'', VNum 1000), (''bet'', VNum 50), (''currency'', VStr ''USD'')]),
              (''spin'', [(''remaining'', VNum 5), (''total'', VNum 10), (''multiplier'', VNum 1)])])]
   \<and> \<not> object_is (VNum 50) (VNum 1)
   \<and> fst (batch_sig [SReset, SSet ''wallet'' ''bet'' (VNum 99), SSet ''wallet'' ''bet'' (VNum 50)]
             playedStore) = None
   \<and> notified playedStore
        (snd (batch_sig [SReset, SSet ''wallet'' ''bet'' (VNum 99), SSet ''wallet'' ''bet'' (VNum 50)]
                playedStore))
       = [(SliceEmitter ''wallet'',
           SliceState [(''balance'', VNum 1000), (''bet'', VNum 50), (''currency'', VStr ''USD'')]),
          (StoreEmitter,
           StoreState
             [(''wallet'', [(''balance'', VNum 1000), (''bet'', VNum 50), (''currency'', VStr ''USD'')]),
              (''spin'', [(''remaining'', VNum 5), (''total'', VNum 10), (''multiplier'', VNum 1)])])]"
  by (simp add: notified_def playedStore_def example_defs store_defs batch_defs batch_sig_defs
        state_of_def)

section \<open>Restoring a snapshot\<close>

















lemma state_of_update:
  "state_of (s\<lparr>heap := a, slices := AList.update n (h\<lparr>state := st\<rparr>) (slices s), events := ev\<rparr>) m
     = (if m = n then st else state_of s m)"
  by (simp add: state_of_def update_conv')



lemma takeSnapshot_slices [simp]:
  "slices (takeSnapshot n st s) = slices s" "storeListeners (takeSnapshot n st s) = storeListeners s"
  by (auto simp: takeSnapshot_def split: prod.splits)
































end
